theory Spec2Isabelle
  imports Main "HOL-Library.AList"
begin

section \<open>The real-time broker of bill-pro-max: WebSocketManager over MongoDBManager\<close>

text \<open>
  The broker is the class \<^verbatim>\<open>WebSocketManager\<close>, which owns the connection registry
  \<^verbatim>\<open>clients\<close> and the subscription index \<^verbatim>\<open>userSubscriptions\<close>, and its collaborator
  \<^verbatim>\<open>MongoDBManager\<close>, which owns the change streams. Both live in
  \<^verbatim>\<open>src/core/BusinessManager.ts\<close>.

  A JavaScript \<^verbatim>\<open>Map\<close> keeps its keys in insertion order: \<^verbatim>\<open>set\<close> on a present key
  replaces the value in place and on a new key appends, which is \<open>AList.update\<close>;
  \<^verbatim>\<open>delete\<close> is \<open>AList.delete\<close>, \<^verbatim>\<open>get\<close> is \<open>map_of\<close>. A \<^verbatim>\<open>Set\<close> is the list of
  its members in insertion order.

  The handlers are \<^verbatim>\<open>async\<close> and are started without being awaited
  (\<^verbatim>\<open>this.handleMessage(clientId, data)\<close>), so they overlap. A handler runs until it
  awaits the driver: \<^verbatim>\<open>await changeStream.close()\<close> in \<^verbatim>\<open>stopWatching\<close> and
  \<^verbatim>\<open>await this.collection.findOne\<close> in \<^verbatim>\<open>loadUserData\<close>. There it is suspended, its
  continuation is kept as a pending task, and other listeners run; when the driver
  answers, the continuation runs to its end. An \<^verbatim>\<open>await\<close> of a promise that is
  already settled is not taken as a point where another listener runs.
\<close>

subsection \<open>Data\<close>

type_synonym client_id = string
type_synonym user_id = string
type_synonym handle = nat

text \<open>\<^verbatim>\<open>WebSocket.readyState\<close>.\<close>

datatype ready_state = CONNECTING | OPEN | CLOSING | CLOSED

text \<open>
  A MongoDB document as far as \<^verbatim>\<open>convertMongoDocument\<close> looks into it. The function
  reads \<^verbatim>\<open>doc.user.createdAt\<close>, which raises a TypeError when \<^verbatim>\<open>doc.user\<close> is
  missing, and maps over \<^verbatim>\<open>doc.challans || []\<close>, \<^verbatim>\<open>doc.deliveries || []\<close>,
  \<^verbatim>\<open>doc.payments || []\<close> and \<^verbatim>\<open>doc.billingCalculations || []\<close> reading a date of
  every entry, which raises a TypeError on an entry that is \<^verbatim>\<open>null\<close>. A missing array is
  \<open>None\<close>, a \<^verbatim>\<open>null\<close> entry is \<open>None\<close>; the other fields are copied or have a default.
\<close>

record document =
  doc_user :: "string option"
  doc_challans :: "nat option list option"
  doc_deliveries :: "nat option list option"
  doc_payments :: "nat option list option"
  doc_billingCalculations :: "nat option list option"
  doc_rest :: nat

datatype user_data_store = UserDataStore string "nat list" "nat list" "nat list" "nat list" nat

datatype error = NotConnected | DriverError | TypeError

text \<open>
  The object literals handed to \<^verbatim>\<open>sendMessage\<close>. A field the literal does not have
  is \<open>None\<close>; \<^verbatim>\<open>timestamp: new Date()\<close> is the reading of the clock.
\<close>

record out_msg =
  msg_type :: string
  msg_clientId :: "client_id option"
  msg_userId :: "user_id option"
  msg_data :: "user_data_store option"
  msg_message :: "string option"
  msg_timestamp :: "nat option"

text \<open>
  The inbound message. \<open>Malformed\<close> is a text \<^verbatim>\<open>JSON.parse\<close> rejects. \<open>Null_message\<close>
  is a text that parses to \<^verbatim>\<open>null\<close>: reading \<^verbatim>\<open>message.type\<close> then throws inside
  \<^verbatim>\<open>handleMessage\<close>, whose promise nobody awaits. \<open>Other_type\<close> is every other value,
  with the text its \<^verbatim>\<open>type\<close> prints as.
\<close>

datatype in_msg =
    Subscribe_user user_id
  | Unsubscribe_user user_id
  | Get_user_data user_id
  | Other_type string
  | Null_message
  | Malformed

text \<open>
  What the world outside the two classes answers during one event: the clock, whether
  \<^verbatim>\<open>collection.watch\<close> throws, whether the \<^verbatim>\<open>changeStream.close()\<close> that settles
  rejects, and what \<^verbatim>\<open>collection.findOne\<close> gives for a user.
\<close>

datatype find_result = FindThrows | NoDocument | Document document

record env =
  now :: nat
  watchThrows :: bool
  closeThrows :: "handle \<Rightarrow> bool"
  findOne :: "user_id \<Rightarrow> find_result"

text \<open>
  \<^verbatim>\<open>MongoDBManager\<close>. \<open>collection_set\<close> is \<^verbatim>\<open>this.collection !== null\<close>,
  \<open>enableChangeStreams\<close> is \<^verbatim>\<open>this.config.enableChangeStreams\<close> (absent counts as
  false). The driver's side is kept as two logs: \<open>opened\<close> lists the streams
  \<^verbatim>\<open>collection.watch\<close> has returned, each with the user its callback was registered
  for (the handle of a new stream is its position in the log), \<open>closeLog\<close> lists the
  calls of \<^verbatim>\<open>close()\<close> that have settled, with whether the call threw, and \<open>errored\<close>
  the streams that have emitted \<^verbatim>\<open>'error'\<close>.
\<close>

record mongo_manager =
  collection_set :: bool
  isConnected :: bool
  enableChangeStreams :: bool
  changeStreams :: "(user_id \<times> handle) list"
  opened :: "(handle \<times> user_id) list"
  closeLog :: "(handle \<times> bool) list"
  errored :: "handle list"

text \<open>
  The continuation of a suspended call, with what it has in its variables: the
  \<^verbatim>\<open>handleUserSubscription\<close> and the \<^verbatim>\<open>handleUserUnsubscription\<close> that wait in
  \<^verbatim>\<open>stopWatching\<close> for \<^verbatim>\<open>close()\<close> of a stream, the \<^verbatim>\<open>stopWatching\<close> that
  \<^verbatim>\<open>handleClientDisconnect\<close> has started and not awaited, and the
  \<^verbatim>\<open>handleGetUserData\<close> that waits for \<^verbatim>\<open>findOne\<close>.
\<close>

datatype task =
    Subscription_closing client_id user_id handle
  | Unsubscription_closing client_id user_id handle
  | Stop_closing user_id handle
  | Get_finding client_id user_id

text \<open>
  \<^verbatim>\<open>WebSocketManager\<close>, with the suspended calls. A socket is its \<^verbatim>\<open>readyState\<close>;
  \<open>sent\<close> is the log of the calls \<^verbatim>\<open>client.send(JSON.stringify(message))\<close>, in
  order. An exception of \<^verbatim>\<open>send\<close> is caught in \<^verbatim>\<open>sendMessage\<close> and only logged to
  the console, so both outcomes leave the same state.
\<close>

record ws_manager =
  clients :: "(client_id \<times> ready_state) list"
  userSubscriptions :: "(user_id \<times> client_id list) list"
  mongoManager :: mongo_manager
  sent :: "(client_id \<times> out_msg) list"
  pending :: "task list"

subsection \<open>Set operations\<close>

definition set_add :: "'a \<Rightarrow> 'a list \<Rightarrow> 'a list" where
  "set_add x xs = (if x \<in> set xs then xs else xs @ [x])"

definition set_delete :: "'a \<Rightarrow> 'a list \<Rightarrow> 'a list" where
  "set_delete x xs = removeAll x xs"

subsection \<open>MongoDBManager\<close>

definition convert_entries :: "nat option list option \<Rightarrow> error + nat list" where
  "convert_entries field =
     (case those (case field of None \<Rightarrow> [] | Some entries \<Rightarrow> entries) of
        None \<Rightarrow> Inl TypeError
      | Some converted \<Rightarrow> Inr converted)"

definition convertMongoDocument :: "document \<Rightarrow> error + user_data_store" where
  "convertMongoDocument doc =
     (case doc_user doc of
        None \<Rightarrow> Inl TypeError
      | Some u \<Rightarrow>
          (case convert_entries (doc_challans doc) of
             Inl err \<Rightarrow> Inl err
           | Inr challans \<Rightarrow>
               (case convert_entries (doc_deliveries doc) of
                  Inl err \<Rightarrow> Inl err
                | Inr deliveries \<Rightarrow>
                    (case convert_entries (doc_payments doc) of
                       Inl err \<Rightarrow> Inl err
                     | Inr payments \<Rightarrow>
                         (case convert_entries (doc_billingCalculations doc) of
                            Inl err \<Rightarrow> Inl err
                          | Inr calculations \<Rightarrow>
                              Inr (UserDataStore u challans deliveries payments calculations
                                     (doc_rest doc)))))))"

text \<open>
  \<^verbatim>\<open>stopWatching\<close> after its \<^verbatim>\<open>await changeStream.close()\<close> has settled, for the stream
  it read from the map before: when \<^verbatim>\<open>close()\<close> threw, the \<^verbatim>\<open>catch\<close> logs and the
  \<^verbatim>\<open>changeStreams.delete(userId)\<close> is skipped; otherwise the entry of the user is
  deleted, whatever is stored there by then.
\<close>

definition stopWatching_settled :: "env \<Rightarrow> user_id \<Rightarrow> handle \<Rightarrow> mongo_manager \<Rightarrow> mongo_manager" where
  "stopWatching_settled e userId changeStream m =
     (if closeThrows e changeStream
      then m\<lparr>closeLog := closeLog m @ [(changeStream, True)]\<rparr>
      else m\<lparr>closeLog := closeLog m @ [(changeStream, False)],
             changeStreams := AList.delete userId (changeStreams m)\<rparr>)"

text \<open>
  The whole of \<^verbatim>\<open>stopWatching\<close> when nothing else runs while it waits: without a stream
  stored for the user it does nothing, with one it calls \<^verbatim>\<open>close()\<close> and goes on as
  above. The function itself never throws.
\<close>

definition stopWatching :: "env \<Rightarrow> user_id \<Rightarrow> mongo_manager \<Rightarrow> mongo_manager" where
  "stopWatching e userId m =
     (case map_of (changeStreams m) userId of
        None \<Rightarrow> m
      | Some changeStream \<Rightarrow>
          if closeThrows e changeStream
          then m\<lparr>closeLog := closeLog m @ [(changeStream, True)]\<rparr>
          else m\<lparr>closeLog := closeLog m @ [(changeStream, False)],
                 changeStreams := AList.delete userId (changeStreams m)\<rparr>)"

text \<open>
  \<^verbatim>\<open>watchUserData\<close> after its \<^verbatim>\<open>await this.stopWatching(userId)\<close>: it opens a stream
  and stores it under the user; an exception of \<^verbatim>\<open>collection.watch\<close> is rethrown.
\<close>

definition watchUserData_open :: "env \<Rightarrow> user_id \<Rightarrow> mongo_manager \<Rightarrow> (error + unit) \<times> mongo_manager" where
  "watchUserData_open e userId m1 =
     (if watchThrows e then (Inl DriverError, m1)
      else
        let changeStream = length (opened m1) in
        (Inr (), m1\<lparr>changeStreams := AList.update userId changeStream (changeStreams m1),
                    opened := opened m1 @ [(changeStream, userId)]\<rparr>))"

text \<open>
  The whole of \<^verbatim>\<open>watchUserData\<close> when nothing else runs while it waits: the connection
  check throws before the \<^verbatim>\<open>try\<close>; without \<^verbatim>\<open>enableChangeStreams\<close> it warns and
  returns; otherwise it stops the existing stream of the user, opens a new one and stores
  it. An exception of \<^verbatim>\<open>collection.watch\<close> is rethrown, after the existing stream has
  been stopped.
\<close>

definition watchUserData :: "env \<Rightarrow> user_id \<Rightarrow> mongo_manager \<Rightarrow> (error + unit) \<times> mongo_manager" where
  "watchUserData e userId m =
     (if \<not> collection_set m \<or> \<not> isConnected m then (Inl NotConnected, m)
      else if \<not> enableChangeStreams m then (Inr (), m)
      else
        let m1 = stopWatching e userId m in
        if watchThrows e then (Inl DriverError, m1)
        else
          let changeStream = length (opened m1) in
          (Inr (), m1\<lparr>changeStreams := AList.update userId changeStream (changeStreams m1),
                      opened := opened m1 @ [(changeStream, userId)]\<rparr>))"

text \<open>
  \<^verbatim>\<open>loadUserData\<close> after its \<^verbatim>\<open>await this.collection.findOne\<close>, and the whole of it:
  the connection check comes before the \<^verbatim>\<open>await\<close>.
\<close>

definition loadUserData_settled :: "env \<Rightarrow> user_id \<Rightarrow> error + user_data_store option" where
  "loadUserData_settled e userId =
     (case findOne e userId of
        FindThrows \<Rightarrow> Inl DriverError
      | NoDocument \<Rightarrow> Inr None
      | Document doc \<Rightarrow>
          (case convertMongoDocument doc of
             Inl err \<Rightarrow> Inl err
           | Inr userData \<Rightarrow> Inr (Some userData)))"

definition loadUserData :: "env \<Rightarrow> user_id \<Rightarrow> mongo_manager \<Rightarrow> error + user_data_store option" where
  "loadUserData e userId m =
     (if \<not> collection_set m \<or> \<not> isConnected m then Inl NotConnected
      else loadUserData_settled e userId)"

definition getActiveChangeStreamsCount :: "mongo_manager \<Rightarrow> nat" where
  "getActiveChangeStreamsCount m = length (changeStreams m)"

subsection \<open>WebSocketManager\<close>

definition sendMessage :: "client_id \<Rightarrow> out_msg \<Rightarrow> ws_manager \<Rightarrow> ws_manager" where
  "sendMessage clientId message s =
     (if map_of (clients s) clientId = Some OPEN
      then s\<lparr>sent := sent s @ [(clientId, message)]\<rparr>
      else s)"

definition error_msg :: "nat \<Rightarrow> string \<Rightarrow> out_msg" where
  "error_msg t errorMessage =
     \<lparr>msg_type = ''error'', msg_clientId = None, msg_userId = None, msg_data = None,
      msg_message = Some errorMessage, msg_timestamp = Some t\<rparr>"

definition sendError :: "env \<Rightarrow> client_id \<Rightarrow> string \<Rightarrow> ws_manager \<Rightarrow> ws_manager" where
  "sendError e clientId errorMessage s = sendMessage clientId (error_msg (now e) errorMessage) s"

definition user_msg :: "string \<Rightarrow> user_id \<Rightarrow> user_data_store option \<Rightarrow> nat \<Rightarrow> out_msg" where
  "user_msg ty userId d t =
     \<lparr>msg_type = ty, msg_clientId = None, msg_userId = Some userId, msg_data = d,
      msg_message = None, msg_timestamp = Some t\<rparr>"

text \<open>
  The body of the \<^verbatim>\<open>forEach\<close> in \<^verbatim>\<open>broadcastToUser\<close>: the socket is looked up and
  tested before \<^verbatim>\<open>sendMessage\<close>, which tests it again.
\<close>

definition broadcast_one :: "out_msg \<Rightarrow> client_id \<Rightarrow> ws_manager \<Rightarrow> ws_manager" where
  "broadcast_one message clientId s =
     (if map_of (clients s) clientId = Some OPEN then sendMessage clientId message s else s)"

definition broadcastToUser :: "user_id \<Rightarrow> out_msg \<Rightarrow> ws_manager \<Rightarrow> ws_manager" where
  "broadcastToUser userId message s =
     (case map_of (userSubscriptions s) userId of
        None \<Rightarrow> s
      | Some userSubs \<Rightarrow> fold (broadcast_one message) userSubs s)"


text \<open>
  What \<^verbatim>\<open>handleUserSubscription\<close> does with the outcome of \<^verbatim>\<open>watchUserData\<close>: it
  sends the confirmation, or, in its \<^verbatim>\<open>catch\<close>, the error.
\<close>

definition subscription_reply ::
  "env \<Rightarrow> client_id \<Rightarrow> user_id \<Rightarrow> (error + unit) \<times> mongo_manager \<Rightarrow> ws_manager \<Rightarrow> ws_manager" where
  "subscription_reply e clientId userId outcome s =
     (case outcome of
        (Inr _, m) \<Rightarrow>
          sendMessage clientId (user_msg ''subscription_confirmed'' userId None (now e))
            (s\<lparr>mongoManager := m\<rparr>)
      | (Inl _, m) \<Rightarrow>
          sendError e clientId ''Failed to subscribe to user data'' (s\<lparr>mongoManager := m\<rparr>))"

text \<open>
  \<^verbatim>\<open>handleUserSubscription\<close> up to the point where it waits for the driver. The client
  is added to the set of the user first. Then \<^verbatim>\<open>watchUserData\<close> checks the connection
  and \<^verbatim>\<open>enableChangeStreams\<close>, and \<^verbatim>\<open>stopWatching\<close> reads the stream of the user:
  without one nothing is awaited from the driver and the handler runs to its end; with
  one, \<^verbatim>\<open>close()\<close> is called and the handler is suspended.
\<close>

definition handleUserSubscription_start :: "env \<Rightarrow> client_id \<Rightarrow> user_id \<Rightarrow> ws_manager \<Rightarrow> ws_manager" where
  "handleUserSubscription_start e clientId userId s =
     (let subs1 = (if map_of (userSubscriptions s) userId = None
                   then AList.update userId [] (userSubscriptions s)
                   else userSubscriptions s);
          s1 = s\<lparr>userSubscriptions := AList.map_entry userId (set_add clientId) subs1\<rparr>;
          m = mongoManager s1
      in if \<not> collection_set m \<or> \<not> isConnected m
         then subscription_reply e clientId userId (Inl NotConnected, m) s1
         else if \<not> enableChangeStreams m
         then subscription_reply e clientId userId (Inr (), m) s1
         else case map_of (changeStreams m) userId of
                None \<Rightarrow> subscription_reply e clientId userId (watchUserData_open e userId m) s1
              | Some changeStream \<Rightarrow>
                  s1\<lparr>pending := pending s1 @ [Subscription_closing clientId userId changeStream]\<rparr>)"

text \<open>
  The whole of \<^verbatim>\<open>handleUserSubscription\<close> when nothing else runs while it waits: the
  client is added to the set of the user before \<^verbatim>\<open>watchUserData\<close> is awaited; an
  exception of \<^verbatim>\<open>watchUserData\<close> goes to the \<^verbatim>\<open>catch\<close>, which sends the error and
  leaves the set as it is.
\<close>

definition handleUserSubscription :: "env \<Rightarrow> client_id \<Rightarrow> user_id \<Rightarrow> ws_manager \<Rightarrow> ws_manager" where
  "handleUserSubscription e clientId userId s =
     (let subs1 = (if map_of (userSubscriptions s) userId = None
                   then AList.update userId [] (userSubscriptions s)
                   else userSubscriptions s);
          s1 = s\<lparr>userSubscriptions := AList.map_entry userId (set_add clientId) subs1\<rparr>
      in case watchUserData e userId (mongoManager s1) of
           (Inr _, m) \<Rightarrow>
             sendMessage clientId (user_msg ''subscription_confirmed'' userId None (now e))
               (s1\<lparr>mongoManager := m\<rparr>)
         | (Inl _, m) \<Rightarrow>
             sendError e clientId ''Failed to subscribe to user data'' (s1\<lparr>mongoManager := m\<rparr>))"

text \<open>
  \<^verbatim>\<open>handleUserUnsubscription\<close> up to the point where it waits for the driver. The client
  is deleted from the \<^verbatim>\<open>Set\<close> of the user, which stays in the map. When the set is
  empty, \<^verbatim>\<open>stopWatching\<close> reads the stream of the user: with one, \<^verbatim>\<open>close()\<close> is
  called and the handler is suspended, the empty set still in the map; without one the
  entry is deleted at once. The confirmation is sent at the end of the handler.
\<close>

definition unsubscription_reply :: "env \<Rightarrow> client_id \<Rightarrow> user_id \<Rightarrow> ws_manager \<Rightarrow> ws_manager" where
  "unsubscription_reply e clientId userId s =
     sendMessage clientId (user_msg ''unsubscription_confirmed'' userId None (now e)) s"

definition handleUserUnsubscription_start :: "env \<Rightarrow> client_id \<Rightarrow> user_id \<Rightarrow> ws_manager \<Rightarrow> ws_manager" where
  "handleUserUnsubscription_start e clientId userId s =
     (case map_of (userSubscriptions s) userId of
        None \<Rightarrow> unsubscription_reply e clientId userId s
      | Some userSubs \<Rightarrow>
          let s1 = s\<lparr>userSubscriptions :=
                     AList.map_entry userId (\<lambda>_. set_delete clientId userSubs) (userSubscriptions s)\<rparr>
          in if set_delete clientId userSubs = []
             then (case map_of (changeStreams (mongoManager s1)) userId of
                     None \<Rightarrow>
                       unsubscription_reply e clientId userId
                         (s1\<lparr>userSubscriptions := AList.delete userId (userSubscriptions s1)\<rparr>)
                   | Some changeStream \<Rightarrow>
                       s1\<lparr>pending := pending s1 @ [Unsubscription_closing clientId userId changeStream]\<rparr>)
             else unsubscription_reply e clientId userId s1)"

text \<open>
  \<^verbatim>\<open>handleGetUserData\<close>: \<^verbatim>\<open>loadUserData\<close> checks the connection and then waits for
  \<^verbatim>\<open>findOne\<close>; the answer is sent when the result is there.
\<close>

definition getUserData_reply ::
  "env \<Rightarrow> client_id \<Rightarrow> user_id \<Rightarrow> error + user_data_store option \<Rightarrow> ws_manager \<Rightarrow> ws_manager" where
  "getUserData_reply e clientId userId outcome s =
     (case outcome of
        Inr (Some userData) \<Rightarrow>
          sendMessage clientId (user_msg ''user_data'' userId (Some userData) (now e)) s
      | Inr None \<Rightarrow> sendError e clientId ''User data not found'' s
      | Inl _ \<Rightarrow> sendError e clientId ''Failed to get user data'' s)"

definition handleGetUserData_start :: "env \<Rightarrow> client_id \<Rightarrow> user_id \<Rightarrow> ws_manager \<Rightarrow> ws_manager" where
  "handleGetUserData_start e clientId userId s =
     (if \<not> collection_set (mongoManager s) \<or> \<not> isConnected (mongoManager s)
      then getUserData_reply e clientId userId (Inl NotConnected) s
      else s\<lparr>pending := pending s @ [Get_finding clientId userId]\<rparr>)"

text \<open>
  \<^verbatim>\<open>handleClientDisconnect\<close> is not \<^verbatim>\<open>async\<close>. It walks a copy of the entries taken
  before the loop (\<^verbatim>\<open>Array.from(this.userSubscriptions.entries())\<close>). One round deletes
  the client from the set of the user; when the set is empty it starts
  \<^verbatim>\<open>stopWatching(userId)\<close> without awaiting it, which calls \<^verbatim>\<open>close()\<close> on the stream
  stored for the user, if there is one, and is then suspended; the entry of the user is
  deleted at once. After the loop the client is deleted from the registry.
\<close>

definition disconnect_entry :: "client_id \<Rightarrow> user_id \<Rightarrow> ws_manager \<Rightarrow> ws_manager" where
  "disconnect_entry clientId userId s =
     (case map_of (userSubscriptions s) userId of
        None \<Rightarrow> s
      | Some userSubs \<Rightarrow>
          if set_delete clientId userSubs = []
          then s\<lparr>pending := pending s @
                   (case map_of (changeStreams (mongoManager s)) userId of
                      None \<Rightarrow> []
                    | Some changeStream \<Rightarrow> [Stop_closing userId changeStream]),
                 userSubscriptions := AList.delete userId (userSubscriptions s)\<rparr>
          else s\<lparr>userSubscriptions :=
                   AList.map_entry userId (\<lambda>_. set_delete clientId userSubs) (userSubscriptions s)\<rparr>)"

definition handleClientDisconnect :: "client_id \<Rightarrow> ws_manager \<Rightarrow> ws_manager" where
  "handleClientDisconnect clientId s =
     (let s1 = fold (disconnect_entry clientId) (map fst (userSubscriptions s)) s
      in s1\<lparr>clients := AList.delete clientId (clients s1)\<rparr>)"

text \<open>
  \<^verbatim>\<open>handleMessage\<close>, up to the point where the handler it calls waits for the driver.
  The error for a text that does not parse is sent by the \<^verbatim>\<open>'message'\<close> listener
  itself; for \<^verbatim>\<open>null\<close> nothing is sent.
\<close>

definition handleMessage :: "env \<Rightarrow> client_id \<Rightarrow> in_msg \<Rightarrow> ws_manager \<Rightarrow> ws_manager" where
  "handleMessage e clientId message s =
     (case message of
        Subscribe_user userId \<Rightarrow> handleUserSubscription_start e clientId userId s
      | Unsubscribe_user userId \<Rightarrow> handleUserUnsubscription_start e clientId userId s
      | Get_user_data userId \<Rightarrow> handleGetUserData_start e clientId userId s
      | Other_type ty \<Rightarrow> sendError e clientId (''Unknown message type: '' @ ty) s
      | Null_message \<Rightarrow> s
      | Malformed \<Rightarrow> sendError e clientId ''Invalid message format'' s)"

text \<open>
  The continuation of a suspended call, run when the driver has answered. After
  \<^verbatim>\<open>close()\<close>, \<^verbatim>\<open>stopWatching\<close> goes on as in \<open>stopWatching_settled\<close>; then
  \<^verbatim>\<open>handleUserSubscription\<close> opens the new stream and replies, and
  \<^verbatim>\<open>handleUserUnsubscription\<close> deletes the entry of the user from the subscription
  index, whatever it holds by then, and replies.
\<close>

fun resume :: "env \<Rightarrow> task \<Rightarrow> ws_manager \<Rightarrow> ws_manager" where
  "resume e (Subscription_closing clientId userId changeStream) s =
     subscription_reply e clientId userId
       (watchUserData_open e userId (stopWatching_settled e userId changeStream (mongoManager s))) s"
| "resume e (Unsubscription_closing clientId userId changeStream) s =
     unsubscription_reply e clientId userId
       (s\<lparr>mongoManager := stopWatching_settled e userId changeStream (mongoManager s),
          userSubscriptions := AList.delete userId (userSubscriptions s)\<rparr>)"
| "resume e (Stop_closing userId changeStream) s =
     s\<lparr>mongoManager := stopWatching_settled e userId changeStream (mongoManager s)\<rparr>"
| "resume e (Get_finding clientId userId) s =
     getUserData_reply e clientId userId (loadUserData_settled e userId) s"

text \<open>
  The \<^verbatim>\<open>'change'\<close> listener of a stream: with a \<^verbatim>\<open>fullDocument\<close> it converts the
  document and calls the callback registered in \<^verbatim>\<open>handleUserSubscription\<close>, which
  broadcasts a \<^verbatim>\<open>data_update\<close>; an exception of the conversion is caught and logged.
\<close>

definition on_change :: "env \<Rightarrow> user_id \<Rightarrow> document option \<Rightarrow> ws_manager \<Rightarrow> ws_manager" where
  "on_change e userId fullDocument s =
     (case fullDocument of
        None \<Rightarrow> s
      | Some doc \<Rightarrow>
          (case convertMongoDocument doc of
             Inl _ \<Rightarrow> s
           | Inr userData \<Rightarrow>
               broadcastToUser userId (user_msg ''data_update'' userId (Some userData) (now e)) s))"

text \<open>
  The \<^verbatim>\<open>'error'\<close> listener of a stream only writes to the console; the event itself
  is recorded on the driver's side.
\<close>

definition on_error :: "handle \<Rightarrow> ws_manager \<Rightarrow> ws_manager" where
  "on_error h s = s\<lparr>mongoManager := (mongoManager s)\<lparr>errored := errored (mongoManager s) @ [h]\<rparr>\<rparr>"

subsection \<open>Events and runs\<close>

text \<open>
  The events \<^verbatim>\<open>setupWebSocketServer\<close> and \<^verbatim>\<open>watchUserData\<close> register listeners for,
  and the driver answering a suspended call. \<open>Connection\<close> carries the identifier
  \<^verbatim>\<open>generateClientId\<close> returns. A change or an error comes only from a stream that has
  been opened. \<open>Socket_state\<close> is the socket changing its \<^verbatim>\<open>readyState\<close> before its
  \<^verbatim>\<open>'close'\<close> listener has run. \<open>Socket_closed\<close> is the \<^verbatim>\<open>'close'\<close> or the
  \<^verbatim>\<open>'error'\<close> listener of a socket; both call \<^verbatim>\<open>handleClientDisconnect\<close>.
  \<open>Settled n\<close> is the driver answering the suspended call at position \<open>n\<close>, in any
  order.
\<close>

datatype event =
    Connection client_id
  | Message client_id in_msg
  | Socket_state client_id ready_state
  | Socket_closed client_id
  | Change handle "document option"
  | Stream_error handle
  | Settled nat

definition connection_msg :: "client_id \<Rightarrow> nat \<Rightarrow> out_msg" where
  "connection_msg clientId t =
     \<lparr>msg_type = ''connection_established'', msg_clientId = Some clientId, msg_userId = None,
      msg_data = None, msg_message = None, msg_timestamp = Some t\<rparr>"

fun step :: "ws_manager \<Rightarrow> env \<times> event \<Rightarrow> ws_manager" where
  "step s (e, Connection clientId) =
     sendMessage clientId (connection_msg clientId (now e))
       (s\<lparr>clients := AList.update clientId OPEN (clients s)\<rparr>)"
| "step s (e, Message clientId message) = handleMessage e clientId message s"
| "step s (e, Socket_state clientId r) =
     s\<lparr>clients := AList.map_entry clientId (\<lambda>_. r) (clients s)\<rparr>"
| "step s (e, Socket_closed clientId) = handleClientDisconnect clientId s"
| "step s (e, Change h fullDocument) =
     (case map_of (opened (mongoManager s)) h of
        None \<Rightarrow> s
      | Some userId \<Rightarrow> on_change e userId fullDocument s)"
| "step s (e, Stream_error h) =
     (case map_of (opened (mongoManager s)) h of
        None \<Rightarrow> s
      | Some userId \<Rightarrow> on_error h s)"
| "step s (e, Settled n) =
     (if n < length (pending s)
      then resume e (pending s ! n) (s\<lparr>pending := take n (pending s) @ drop (Suc n) (pending s)\<rparr>)
      else s)"

text \<open>
  The broker after its constructor, with the configuration flag and with whether
  \<^verbatim>\<open>connectToMongo\<close> has succeeded.
\<close>

definition initial :: "bool \<Rightarrow> bool \<Rightarrow> ws_manager" where
  "initial enable connected =
     \<lparr>clients = [], userSubscriptions = [],
      mongoManager = \<lparr>collection_set = connected, isConnected = connected,
                      enableChangeStreams = enable, changeStreams = [], opened = [],
                      closeLog = [], errored = []\<rparr>,
      sent = [], pending = []\<rparr>"

text \<open>The states the broker reaches, with handlers that overlap in every possible way.\<close>

definition run :: "bool \<Rightarrow> bool \<Rightarrow> (env \<times> event) list \<Rightarrow> ws_manager" where
  "run enable connected evs = foldl step (initial enable connected) evs"

text \<open>
  The states the broker reaches when no two handlers overlap: after every event the
  driver answers all suspended calls, the oldest first, before the next event.
\<close>

definition drain :: "env \<Rightarrow> ws_manager \<Rightarrow> ws_manager" where
  "drain e s = ((\<lambda>s'. step s' (e, Settled 0)) ^^ length (pending s)) s"

definition step_seq :: "ws_manager \<Rightarrow> env \<times> event \<Rightarrow> ws_manager" where
  "step_seq s x = drain (fst x) (step s x)"

definition run_seq :: "bool \<Rightarrow> bool \<Rightarrow> (env \<times> event) list \<Rightarrow> ws_manager" where
  "run_seq enable connected evs = foldl step_seq (initial enable connected) evs"

text \<open>The subscriber set of a user and its watch, as the two maps have them.\<close>

definition subscribers :: "ws_manager \<Rightarrow> user_id \<Rightarrow> client_id list" where
  "subscribers s userId =
     (case map_of (userSubscriptions s) userId of None \<Rightarrow> [] | Some userSubs \<Rightarrow> userSubs)"

definition watch :: "ws_manager \<Rightarrow> user_id \<Rightarrow> handle option" where
  "watch s userId = map_of (changeStreams (mongoManager s)) userId"

text \<open>
  The watches of a user: the streams stored for it in \<^verbatim>\<open>changeStreams\<close>, which is what
  \<^verbatim>\<open>getActiveChangeStreamsCount\<close> counts, and the streams opened for it of which no
  \<^verbatim>\<open>close()\<close> has settled without throwing.
\<close>

definition active_watches :: "ws_manager \<Rightarrow> user_id \<Rightarrow> handle list" where
  "active_watches s userId =
     map snd (filter (\<lambda>entry. fst entry = userId) (changeStreams (mongoManager s)))"

definition unclosed_watches :: "ws_manager \<Rightarrow> user_id \<Rightarrow> handle list" where
  "unclosed_watches s userId =
     map fst (filter (\<lambda>stream. snd stream = userId \<and>
                                 (fst stream, False) \<notin> set (closeLog (mongoManager s)))
                     (opened (mongoManager s)))"

text \<open>The streams on which the suspended calls of a list have called \<^verbatim>\<open>close()\<close>.\<close>

fun closing :: "task \<Rightarrow> handle list" where
  "closing (Subscription_closing clientId userId changeStream) = [changeStream]"
| "closing (Unsubscription_closing clientId userId changeStream) = [changeStream]"
| "closing (Stop_closing userId changeStream) = [changeStream]"
| "closing (Get_finding clientId userId) = []"


subsection \<open>Handlers that nothing overlaps\<close>

text \<open>
  The handlers with every call of the driver answered at once. They are what \<open>step_seq\<close>
  computes (lemma \<open>step_seq_atomic\<close> below) and serve the proofs about \<open>run_seq\<close>.
  \<open>dropSubscriber\<close> is one round of deleting a client from the set of a user, with
  \<^verbatim>\<open>stopWatching\<close> run to its end.
\<close>

definition dropSubscriber :: "env \<Rightarrow> client_id \<Rightarrow> user_id \<Rightarrow> ws_manager \<Rightarrow> ws_manager" where
  "dropSubscriber e clientId userId s =
     (case map_of (userSubscriptions s) userId of
        None \<Rightarrow> s
      | Some userSubs \<Rightarrow>
          if set_delete clientId userSubs = []
          then s\<lparr>mongoManager := stopWatching e userId (mongoManager s),
                 userSubscriptions := AList.delete userId (userSubscriptions s)\<rparr>
          else s\<lparr>userSubscriptions :=
                   AList.map_entry userId (\<lambda>_. set_delete clientId userSubs) (userSubscriptions s)\<rparr>)"

definition unsubscription_atomic :: "env \<Rightarrow> client_id \<Rightarrow> user_id \<Rightarrow> ws_manager \<Rightarrow> ws_manager" where
  "unsubscription_atomic e clientId userId s =
     sendMessage clientId (user_msg ''unsubscription_confirmed'' userId None (now e))
       (dropSubscriber e clientId userId s)"

definition getUserData_atomic :: "env \<Rightarrow> client_id \<Rightarrow> user_id \<Rightarrow> ws_manager \<Rightarrow> ws_manager" where
  "getUserData_atomic e clientId userId s =
     getUserData_reply e clientId userId (loadUserData e userId (mongoManager s)) s"

definition disconnect_atomic :: "env \<Rightarrow> client_id \<Rightarrow> ws_manager \<Rightarrow> ws_manager" where
  "disconnect_atomic e clientId s =
     (let s1 = fold (dropSubscriber e clientId) (map fst (userSubscriptions s)) s
      in s1\<lparr>clients := AList.delete clientId (clients s1)\<rparr>)"

definition message_atomic :: "env \<Rightarrow> client_id \<Rightarrow> in_msg \<Rightarrow> ws_manager \<Rightarrow> ws_manager" where
  "message_atomic e clientId message s =
     (case message of
        Subscribe_user userId \<Rightarrow> handleUserSubscription e clientId userId s
      | Unsubscribe_user userId \<Rightarrow> unsubscription_atomic e clientId userId s
      | Get_user_data userId \<Rightarrow> getUserData_atomic e clientId userId s
      | Other_type ty \<Rightarrow> sendError e clientId (''Unknown message type: '' @ ty) s
      | Null_message \<Rightarrow> s
      | Malformed \<Rightarrow> sendError e clientId ''Invalid message format'' s)"

fun step_atomic :: "ws_manager \<Rightarrow> env \<times> event \<Rightarrow> ws_manager" where
  "step_atomic s (e, Connection clientId) =
     sendMessage clientId (connection_msg clientId (now e))
       (s\<lparr>clients := AList.update clientId OPEN (clients s)\<rparr>)"
| "step_atomic s (e, Message clientId message) = message_atomic e clientId message s"
| "step_atomic s (e, Socket_state clientId r) =
     s\<lparr>clients := AList.map_entry clientId (\<lambda>_. r) (clients s)\<rparr>"
| "step_atomic s (e, Socket_closed clientId) = disconnect_atomic e clientId s"
| "step_atomic s (e, Change h fullDocument) =
     (case map_of (opened (mongoManager s)) h of
        None \<Rightarrow> s
      | Some userId \<Rightarrow> on_change e userId fullDocument s)"
| "step_atomic s (e, Stream_error h) =
     (case map_of (opened (mongoManager s)) h of
        None \<Rightarrow> s
      | Some userId \<Rightarrow> on_error h s)"
| "step_atomic s (e, Settled n) = s"

text \<open>
  The calls of \<^verbatim>\<open>stopWatching\<close> the loop of \<^verbatim>\<open>handleClientDisconnect\<close> leaves
  suspended for a list of users: one for every user of which the client is the only
  subscriber and for which a stream is stored.
\<close>

definition stop_task :: "client_id \<Rightarrow> ws_manager \<Rightarrow> user_id \<Rightarrow> task list" where
  "stop_task c s u =
     (case map_of (userSubscriptions s) u of
        None \<Rightarrow> []
      | Some cs \<Rightarrow>
          if set_delete c cs = []
          then (case map_of (changeStreams (mongoManager s)) u of
                  None \<Rightarrow> [] | Some h \<Rightarrow> [Stop_closing u h])
          else [])"

text \<open>What the continuation of a suspended \<^verbatim>\<open>stopWatching\<close> does to the change streams.\<close>

fun settle_stop :: "env \<Rightarrow> task \<Rightarrow> mongo_manager \<Rightarrow> mongo_manager" where
  "settle_stop e (Stop_closing u h) m = stopWatching_settled e u h m"
| "settle_stop e t m = m"

subsection \<open>Predicates used in the proofs\<close>

text \<open>
  Whether \<^verbatim>\<open>watchUserData\<close> gets as far as \<^verbatim>\<open>stopWatching\<close>, and whether it
  opens a stream.
\<close>

definition stops :: "mongo_manager \<Rightarrow> bool" where
  "stops m \<longleftrightarrow> collection_set m \<and> isConnected m \<and> enableChangeStreams m"

definition opens :: "env \<Rightarrow> mongo_manager \<Rightarrow> bool" where
  "opens e m \<longleftrightarrow> collection_set m \<and> isConnected m \<and> enableChangeStreams m \<and> \<not> watchThrows e"

text \<open>What is left of a subscriber set once a client is deleted; \<open>None\<close> when nothing is.\<close>

definition without :: "client_id \<Rightarrow> client_id list \<Rightarrow> client_id list option" where
  "without c cs = (if set_delete c cs = [] then None else Some (set_delete c cs))"

text \<open>
  The subscription index has no key twice and no member twice in a set; this holds in
  every state. Between handlers that do not overlap it has no empty set either.
\<close>

definition subs_distinct :: "ws_manager \<Rightarrow> bool" where
  "subs_distinct s \<longleftrightarrow>
     distinct (map fst (userSubscriptions s)) \<and>
     (\<forall>u cs. map_of (userSubscriptions s) u = Some cs \<longrightarrow> distinct cs)"

definition subs_ok :: "ws_manager \<Rightarrow> bool" where
  "subs_ok s \<longleftrightarrow>
     distinct (map fst (userSubscriptions s)) \<and>
     (\<forall>u cs. map_of (userSubscriptions s) u = Some cs \<longrightarrow> cs \<noteq> [] \<and> distinct cs)"

text \<open>
  The change streams are well formed: no user twice, handles are the positions in
  \<open>opened\<close>, and the stream stored for a user was opened for that user.
\<close>

definition mongo_ok :: "mongo_manager \<Rightarrow> bool" where
  "mongo_ok m \<longleftrightarrow>
     distinct (map fst (changeStreams m)) \<and>
     map fst (opened m) = [0..<length (opened m)] \<and>
     (\<forall>u h. map_of (changeStreams m) u = Some h \<longrightarrow> map_of (opened m) h = Some u)"




text \<open>
  Change streams are not enabled and no stream has been opened; then the only calls that
  are ever suspended are those of \<^verbatim>\<open>handleGetUserData\<close>.
\<close>

definition idle :: "mongo_manager \<Rightarrow> bool" where
  "idle m \<longleftrightarrow> \<not> enableChangeStreams m \<and> changeStreams m = [] \<and> opened m = []"

fun finding :: "task \<Rightarrow> bool" where
  "finding (Get_finding c u) = True"
| "finding t = False"

definition idle_state :: "ws_manager \<Rightarrow> bool" where
  "idle_state s \<longleftrightarrow> idle (mongoManager s) \<and> list_all finding (pending s)"

subsection \<open>Sample inputs\<close>

text \<open>
  A driver that answers without failing, one whose \<^verbatim>\<open>collection.watch\<close> throws, and
  one whose \<^verbatim>\<open>close()\<close> throws.
\<close>

definition env_ok :: "nat \<Rightarrow> env" where
  "env_ok t = \<lparr>now = t, watchThrows = False, closeThrows = (\<lambda>_. False), findOne = (\<lambda>_. NoDocument)\<rparr>"

definition env_watch_fails :: "nat \<Rightarrow> env" where
  "env_watch_fails t =
     \<lparr>now = t, watchThrows = True, closeThrows = (\<lambda>_. False), findOne = (\<lambda>_. NoDocument)\<rparr>"

definition env_close_fails :: "nat \<Rightarrow> env" where
  "env_close_fails t =
     \<lparr>now = t, watchThrows = False, closeThrows = (\<lambda>_. True), findOne = (\<lambda>_. NoDocument)\<rparr>"

text \<open>One connection subscribes to one user.\<close>

definition one_subscriber :: "(env \<times> event) list" where
  "one_subscriber =
     [(env_ok 1, Connection ''c1''), (env_ok 2, Message ''c1'' (Subscribe_user ''acct-1''))]"

text \<open>
  Two connections subscribe to one user, the second when the first is done; then the
  socket of the second is closed while its \<^verbatim>\<open>'close'\<close> listener has not run yet.
\<close>

definition two_subscribers :: "(env \<times> event) list" where
  "two_subscribers =
     [(env_ok 1, Connection ''c1''), (env_ok 2, Connection ''c2''),
      (env_ok 3, Message ''c1'' (Subscribe_user ''acct-1'')),
      (env_ok 4, Message ''c2'' (Subscribe_user ''acct-1'')),
      (env_ok 4, Settled 0)]"

definition one_dead :: "(env \<times> event) list" where
  "one_dead = two_subscribers @ [(env_ok 5, Socket_state ''c2'' CLOSED)]"

text \<open>The first connection also subscribes to a second user, alone.\<close>

definition two_users :: "(env \<times> event) list" where
  "two_users = two_subscribers @ [(env_ok 5, Message ''c1'' (Subscribe_user ''acct-2''))]"


text \<open>
  The first connection subscribes twice, the second time while stream 0 is stored, so
  that the handler waits for \<^verbatim>\<open>close()\<close>; then its socket is closed.
\<close>

definition resubscribe_disconnect :: "(env \<times> event) list" where
  "resubscribe_disconnect =
     one_subscriber @
     [(env_ok 3, Message ''c1'' (Subscribe_user ''acct-1'')), (env_ok 4, Socket_closed ''c1'')]"

text \<open>
  Two subscribes arrive while stream 0 is stored, the second before \<^verbatim>\<open>close()\<close> of
  the first has been answered; then both calls are answered.
\<close>

definition overlapping_subscribes :: "(env \<times> event) list" where
  "overlapping_subscribes =
     one_subscriber @
     [(env_ok 3, Connection ''c2''),
      (env_ok 4, Message ''c1'' (Subscribe_user ''acct-1'')),
      (env_ok 5, Message ''c2'' (Subscribe_user ''acct-1'')),
      (env_ok 6, Settled 0), (env_ok 7, Settled 0)]"

text \<open>
  The only subscriber unsubscribes, and the handler waits for \<^verbatim>\<open>close()\<close> of
  stream 0. A second connection subscribes meanwhile; then both calls are answered.
\<close>

definition unsubscribe_waiting :: "(env \<times> event) list" where
  "unsubscribe_waiting =
     [(env_ok 1, Connection ''c1''), (env_ok 2, Connection ''c2''),
      (env_ok 3, Message ''c1'' (Subscribe_user ''acct-1'')),
      (env_ok 4, Message ''c1'' (Unsubscribe_user ''acct-1''))]"

definition lost_subscribe :: "(env \<times> event) list" where
  "lost_subscribe =
     unsubscribe_waiting @
     [(env_ok 5, Message ''c2'' (Subscribe_user ''acct-1'')),
      (env_ok 6, Settled 0), (env_ok 7, Settled 0)]"

section \<open>Lemmas\<close>

subsection \<open>Sets as lists\<close>

lemma set_set_add [simp]: "set (set_add x xs) = insert x (set xs)"
  by (auto simp: set_add_def)

lemma distinct_set_add [simp]: "distinct (set_add x xs) = distinct xs"
  by (auto simp: set_add_def)

lemma set_add_nonempty [simp]: "set_add x xs \<noteq> []"
  by (auto simp: set_add_def)

lemma set_add_member: "x \<in> set xs \<Longrightarrow> set_add x xs = xs"
  by (simp add: set_add_def)

lemma set_set_delete [simp]: "set (set_delete x xs) = set xs - {x}"
  by (simp add: set_delete_def)

lemma distinct_set_delete [simp]: "distinct xs \<Longrightarrow> distinct (set_delete x xs)"
  by (simp add: set_delete_def distinct_removeAll)

lemma set_delete_idem [simp]: "set_delete x (set_delete x xs) = set_delete x xs"
  by (simp add: set_delete_def)

lemma set_delete_Nil_iff: "set_delete x xs = [] \<longleftrightarrow> set xs \<subseteq> {x}"
  by (induction xs) (auto simp: set_delete_def)

lemma without_Some: "without c cs = Some cs' \<Longrightarrow> cs' \<noteq> [] \<and> set cs' = set cs - {c} \<and> c \<notin> set cs'"
  by (auto simp: without_def split: if_splits)

lemma without_distinct: "without c cs = Some cs' \<Longrightarrow> distinct cs \<Longrightarrow> distinct cs'"
  by (auto simp: without_def split: if_splits)

lemma bind_without_idem:
  "Option.bind x (\<lambda>y. Option.bind (without c y) (without c)) = Option.bind x (without c)"
  by (cases x) (auto simp: without_def)

lemma keys_delete: "fst ` set (AList.delete k al) = fst ` set al - {k}"
  by (induction al) auto

lemma delete_map_entry: "AList.delete k (AList.map_entry k f al) = AList.delete k al"
  by (induction al) auto

lemma map_entry_same:
  "map_of al k = Some v \<Longrightarrow> f v = v \<Longrightarrow> AList.map_entry k f al = al"
  by (induction al) (auto split: if_splits)

subsection \<open>What sending leaves alone\<close>

lemma sendMessage_clients [simp]: "clients (sendMessage c m s) = clients s"
  and sendMessage_subs [simp]: "userSubscriptions (sendMessage c m s) = userSubscriptions s"
  and sendMessage_mongo [simp]: "mongoManager (sendMessage c m s) = mongoManager s"
  and sendMessage_pending [simp]: "pending (sendMessage c m s) = pending s"
  by (simp_all add: sendMessage_def)

lemma sendMessage_sent:
  "sent (sendMessage c m s) = sent s @ (if map_of (clients s) c = Some OPEN then [(c, m)] else [])"
  by (simp add: sendMessage_def)

lemma sendError_clients [simp]: "clients (sendError e c t s) = clients s"
  and sendError_subs [simp]: "userSubscriptions (sendError e c t s) = userSubscriptions s"
  and sendError_mongo [simp]: "mongoManager (sendError e c t s) = mongoManager s"
  and sendError_pending [simp]: "pending (sendError e c t s) = pending s"
  by (simp_all add: sendError_def)

lemma sendError_sent:
  "sent (sendError e c t s) =
     sent s @ (if map_of (clients s) c = Some OPEN then [(c, error_msg (now e) t)] else [])"
  by (simp add: sendError_def sendMessage_sent)

lemma fold_broadcast_one:
  "clients (fold (broadcast_one m) cs s) = clients s \<and>
   userSubscriptions (fold (broadcast_one m) cs s) = userSubscriptions s \<and>
   mongoManager (fold (broadcast_one m) cs s) = mongoManager s \<and>
   pending (fold (broadcast_one m) cs s) = pending s \<and>
   sent (fold (broadcast_one m) cs s) =
     sent s @ map (\<lambda>c. (c, m)) (filter (\<lambda>c. map_of (clients s) c = Some OPEN) cs)"
  by (induction cs arbitrary: s) (simp_all add: broadcast_one_def sendMessage_sent)

lemma broadcastToUser_clients [simp]: "clients (broadcastToUser u m s) = clients s"
  and broadcastToUser_subs [simp]: "userSubscriptions (broadcastToUser u m s) = userSubscriptions s"
  and broadcastToUser_mongo [simp]: "mongoManager (broadcastToUser u m s) = mongoManager s"
  and broadcastToUser_pending [simp]: "pending (broadcastToUser u m s) = pending s"
  by (simp_all add: broadcastToUser_def fold_broadcast_one split: option.split)

lemma broadcastToUser_sent:
  "sent (broadcastToUser u m s) =
     sent s @ map (\<lambda>c. (c, m)) (filter (\<lambda>c. map_of (clients s) c = Some OPEN) (subscribers s u))"
  by (simp add: broadcastToUser_def fold_broadcast_one subscribers_def split: option.split)

lemma subscription_reply_fields [simp]:
  "clients (subscription_reply e c u r s) = clients s"
  "userSubscriptions (subscription_reply e c u r s) = userSubscriptions s"
  "pending (subscription_reply e c u r s) = pending s"
  "mongoManager (subscription_reply e c u r s) = snd r"
  by (cases r; cases "fst r"; simp add: subscription_reply_def)+

lemma subscription_reply_sent:
  "sent (subscription_reply e c u r s) =
     sent s @ (if map_of (clients s) c = Some OPEN
               then [(c, if isl (fst r)
                         then error_msg (now e) ''Failed to subscribe to user data''
                         else user_msg ''subscription_confirmed'' u None (now e))]
               else [])"
  by (cases r; cases "fst r"; simp add: subscription_reply_def sendMessage_sent sendError_sent)

lemma unsubscription_reply_fields [simp]:
  "clients (unsubscription_reply e c u s) = clients s"
  "userSubscriptions (unsubscription_reply e c u s) = userSubscriptions s"
  "pending (unsubscription_reply e c u s) = pending s"
  "mongoManager (unsubscription_reply e c u s) = mongoManager s"
  by (simp_all add: unsubscription_reply_def)

lemma unsubscription_reply_sent:
  "sent (unsubscription_reply e c u s) =
     sent s @ (if map_of (clients s) c = Some OPEN
               then [(c, user_msg ''unsubscription_confirmed'' u None (now e))] else [])"
  by (simp add: unsubscription_reply_def sendMessage_sent)

lemma getUserData_reply_fields [simp]:
  "clients (getUserData_reply e c u r s) = clients s"
  "userSubscriptions (getUserData_reply e c u r s) = userSubscriptions s"
  "pending (getUserData_reply e c u r s) = pending s"
  "mongoManager (getUserData_reply e c u r s) = mongoManager s"
  by (simp_all add: getUserData_reply_def split: sum.split option.split)

lemma getUserData_reply_sent:
  "sent (getUserData_reply e c u r s) =
     sent s @ (if map_of (clients s) c = Some OPEN
               then [(c, case r of
                           Inr (Some d) \<Rightarrow> user_msg ''user_data'' u (Some d) (now e)
                         | Inr None \<Rightarrow> error_msg (now e) ''User data not found''
                         | Inl _ \<Rightarrow> error_msg (now e) ''Failed to get user data'')]
               else [])"
  by (simp add: getUserData_reply_def sendMessage_sent sendError_sent split: sum.split option.split)

subsection \<open>The change streams\<close>

lemma stopWatching_settled_flags [simp]:
  "collection_set (stopWatching_settled e u h m) = collection_set m"
  "isConnected (stopWatching_settled e u h m) = isConnected m"
  "enableChangeStreams (stopWatching_settled e u h m) = enableChangeStreams m"
  "opened (stopWatching_settled e u h m) = opened m"
  "errored (stopWatching_settled e u h m) = errored m"
  by (simp_all add: stopWatching_settled_def)

lemma stopWatching_settled_closeLog:
  "closeLog (stopWatching_settled e u h m) = closeLog m @ [(h, closeThrows e h)]"
  by (simp add: stopWatching_settled_def)

lemma stopWatching_settled_map_of:
  "map_of (changeStreams (stopWatching_settled e u h m)) u' =
     (if u' = u \<and> \<not> closeThrows e h then None else map_of (changeStreams m) u')"
  by (simp add: stopWatching_settled_def AList.delete_conv')

lemma stopWatching_settled_distinct:
  "distinct (map fst (changeStreams m)) \<Longrightarrow>
   distinct (map fst (changeStreams (stopWatching_settled e u h m)))"
  by (simp add: stopWatching_settled_def AList.distinct_delete)

lemma stopWatching_split:
  "stopWatching e u m =
     (case map_of (changeStreams m) u of None \<Rightarrow> m | Some h \<Rightarrow> stopWatching_settled e u h m)"
  by (simp add: stopWatching_def stopWatching_settled_def split: option.split)

lemma stopWatching_flags [simp]:
  "collection_set (stopWatching e u m) = collection_set m"
  "isConnected (stopWatching e u m) = isConnected m"
  "enableChangeStreams (stopWatching e u m) = enableChangeStreams m"
  "opened (stopWatching e u m) = opened m"
  "errored (stopWatching e u m) = errored m"
  by (simp_all add: stopWatching_def split: option.split)

lemma stopWatching_closeLog:
  "closeLog (stopWatching e u m) =
     closeLog m @ (case map_of (changeStreams m) u of None \<Rightarrow> [] | Some h \<Rightarrow> [(h, closeThrows e h)])"
  by (simp add: stopWatching_def split: option.split)

lemma stopWatching_map_of:
  "map_of (changeStreams (stopWatching e u m)) u' =
     (if u' = u \<and> (\<exists>h. map_of (changeStreams m) u = Some h \<and> \<not> closeThrows e h) then None
      else map_of (changeStreams m) u')"
  by (auto simp: stopWatching_def AList.delete_conv' split: option.split)

lemma stopWatching_distinct:
  "distinct (map fst (changeStreams m)) \<Longrightarrow> distinct (map fst (changeStreams (stopWatching e u m)))"
  by (simp add: stopWatching_def AList.distinct_delete split: option.split)

lemma stopWatching_none: "map_of (changeStreams m) u = None \<Longrightarrow> stopWatching e u m = m"
  by (simp add: stopWatching_def)

lemma watchUserData_open_flags [simp]:
  "collection_set (snd (watchUserData_open e u m)) = collection_set m"
  "isConnected (snd (watchUserData_open e u m)) = isConnected m"
  "enableChangeStreams (snd (watchUserData_open e u m)) = enableChangeStreams m"
  "errored (snd (watchUserData_open e u m)) = errored m"
  "closeLog (snd (watchUserData_open e u m)) = closeLog m"
  by (simp_all add: watchUserData_open_def Let_def)

lemma watchUserData_open_opened:
  "opened (snd (watchUserData_open e u m)) =
     opened m @ (if watchThrows e then [] else [(length (opened m), u)])"
  by (simp add: watchUserData_open_def Let_def)

lemma watchUserData_open_map_of:
  "map_of (changeStreams (snd (watchUserData_open e u m))) u' =
     (if u' = u \<and> \<not> watchThrows e then Some (length (opened m)) else map_of (changeStreams m) u')"
  by (simp add: watchUserData_open_def Let_def AList.update_conv')

lemma watchUserData_open_distinct:
  "distinct (map fst (changeStreams m)) \<Longrightarrow>
   distinct (map fst (changeStreams (snd (watchUserData_open e u m))))"
  by (simp add: watchUserData_open_def Let_def AList.distinct_update)

lemma watchUserData_open_result:
  "isl (fst (watchUserData_open e u m)) = watchThrows e"
  by (simp add: watchUserData_open_def Let_def)

lemma watchUserData_split:
  "stops m \<Longrightarrow> watchUserData e u m = watchUserData_open e u (stopWatching e u m)"
  by (simp add: watchUserData_def watchUserData_open_def stops_def Let_def)

lemma watchUserData_flags [simp]:
  "collection_set (snd (watchUserData e u m)) = collection_set m"
  "isConnected (snd (watchUserData e u m)) = isConnected m"
  "enableChangeStreams (snd (watchUserData e u m)) = enableChangeStreams m"
  "errored (snd (watchUserData e u m)) = errored m"
  by (simp_all add: watchUserData_def Let_def)

lemma watchUserData_distinct:
  "distinct (map fst (changeStreams m)) \<Longrightarrow>
   distinct (map fst (changeStreams (snd (watchUserData e u m))))"
  by (simp add: watchUserData_def Let_def AList.distinct_update stopWatching_distinct)

lemma watchUserData_opened:
  "opened (snd (watchUserData e u m)) =
     opened m @ (if opens e m then [(length (opened m), u)] else [])"
  by (simp add: watchUserData_def Let_def opens_def)

lemma watchUserData_closeLog:
  "closeLog (snd (watchUserData e u m)) =
     closeLog m @ (if stops m then (case map_of (changeStreams m) u of None \<Rightarrow> []
                                    | Some h \<Rightarrow> [(h, closeThrows e h)]) else [])"
  by (simp add: watchUserData_def Let_def stops_def stopWatching_closeLog)

lemma watchUserData_map_of:
  "map_of (changeStreams (snd (watchUserData e u m))) u' =
     (if u' = u \<and> opens e m then Some (length (opened m))
      else if stops m then map_of (changeStreams (stopWatching e u m)) u'
      else map_of (changeStreams m) u')"
  by (simp add: watchUserData_def Let_def opens_def stops_def AList.update_conv')

lemma watchUserData_result:
  "fst (watchUserData e u m) =
     (if \<not> collection_set m \<or> \<not> isConnected m then Inl NotConnected
      else if enableChangeStreams m \<and> watchThrows e then Inl DriverError else Inr ())"
  by (simp add: watchUserData_def Let_def)

lemma watchUserData_idle: "\<not> stops m \<Longrightarrow> snd (watchUserData e u m) = m"
  by (auto simp: watchUserData_def stops_def)

lemma watchUserData_throws:
  "stops m \<Longrightarrow> watchThrows e \<Longrightarrow> snd (watchUserData e u m) = stopWatching e u m"
  by (simp add: watchUserData_def stops_def Let_def)

lemma watchUserData_fails:
  "isl (fst (watchUserData e u m)) \<longleftrightarrow>
     \<not> collection_set m \<or> \<not> isConnected m \<or> (enableChangeStreams m \<and> watchThrows e)"
  by (auto simp: watchUserData_result)

subsection \<open>The invariant of the change streams\<close>

lemma mongo_okI:
  "distinct (map fst (changeStreams m)) \<Longrightarrow>
   map fst (opened m) = [0..<length (opened m)] \<Longrightarrow>
   (\<And>u h. map_of (changeStreams m) u = Some h \<Longrightarrow> map_of (opened m) h = Some u) \<Longrightarrow>
   mongo_ok m"
  unfolding mongo_ok_def by blast

lemma mongo_ok_keys: "mongo_ok m \<Longrightarrow> distinct (map fst (changeStreams m))"
  unfolding mongo_ok_def by blast

lemma mongo_ok_opened: "mongo_ok m \<Longrightarrow> map fst (opened m) = [0..<length (opened m)]"
  unfolding mongo_ok_def by blast

lemma mongo_ok_owner:
  "mongo_ok m \<Longrightarrow> map_of (changeStreams m) u = Some h \<Longrightarrow> map_of (opened m) h = Some u"
  unfolding mongo_ok_def by blast

lemma mongo_ok_cong:
  assumes "changeStreams m' = changeStreams m" and "opened m' = opened m" and ok: "mongo_ok m"
  shows "mongo_ok m'"
proof (rule mongo_okI)
  show "distinct (map fst (changeStreams m'))"
    using mongo_ok_keys [OF ok] assms(1) by simp
  show "map fst (opened m') = [0..<length (opened m')]"
    using mongo_ok_opened [OF ok] assms(2) by simp
next
  fix u h
  assume "map_of (changeStreams m') u = Some h"
  then show "map_of (opened m') h = Some u"
    using mongo_ok_owner [OF ok, of u h] assms(1,2) by simp
qed

lemma opened_fresh:
  assumes "map fst xs = [0..<length xs]"
  shows "map_of xs (length xs) = None"
proof -
  have "length xs \<notin> set (map fst xs)" using assms by simp
  then show ?thesis by (simp add: map_of_eq_None_iff)
qed

lemma opened_append:
  assumes "map fst xs = [0..<length xs]"
  shows "map_of (xs @ [(length xs, u)]) h = (if h = length xs then Some u else map_of xs h)"
  using opened_fresh [OF assms] by (cases "map_of xs h") (auto simp: map_add_def)


lemma watch_fresh:
  assumes ok: "mongo_ok m" and w: "map_of (changeStreams m) u = Some h"
  shows "h \<noteq> length (opened m)"
proof
  assume "h = length (opened m)"
  with mongo_ok_owner [OF ok w] opened_fresh [OF mongo_ok_opened [OF ok]]
  show False by simp
qed

lemma stopWatching_settled_ok:
  assumes ok: "mongo_ok m"
  shows "mongo_ok (stopWatching_settled e u h m)"
proof (rule mongo_okI)
  show "distinct (map fst (changeStreams (stopWatching_settled e u h m)))"
    using ok by (simp add: stopWatching_settled_distinct mongo_ok_keys)
  show "map fst (opened (stopWatching_settled e u h m)) =
        [0..<length (opened (stopWatching_settled e u h m))]"
    using mongo_ok_opened [OF ok] by simp
next
  fix u' h'
  assume "map_of (changeStreams (stopWatching_settled e u h m)) u' = Some h'"
  then have "map_of (changeStreams m) u' = Some h'"
    by (simp add: stopWatching_settled_map_of split: if_splits)
  from mongo_ok_owner [OF ok this]
  show "map_of (opened (stopWatching_settled e u h m)) h' = Some u'" by simp
qed


lemma watchUserData_open_ok:
  assumes ok: "mongo_ok m"
  shows "mongo_ok (snd (watchUserData_open e u m))"
proof (cases "watchThrows e")
  case True
  with ok show ?thesis by (simp add: watchUserData_open_def)
next
  case False
  let ?m' = "snd (watchUserData_open e u m)"
  have op1: "map fst (opened m) = [0..<length (opened m)]" using ok by (rule mongo_ok_opened)
  have op: "opened ?m' = opened m @ [(length (opened m), u)]"
    using False by (simp add: watchUserData_open_opened)
  have opm: "\<And>h. map_of (opened ?m') h =
      (if h = length (opened m) then Some u else map_of (opened m) h)"
    unfolding op by (rule opened_append [OF op1])
  have cs: "\<And>u'. map_of (changeStreams ?m') u' =
      (if u' = u then Some (length (opened m)) else map_of (changeStreams m) u')"
    using False by (simp add: watchUserData_open_map_of)
  show ?thesis
  proof (rule mongo_okI)
    show "distinct (map fst (changeStreams ?m'))"
      using ok by (simp add: watchUserData_open_distinct mongo_ok_keys)
    show "map fst (opened ?m') = [0..<length (opened ?m')]"
      using op1 by (simp add: op)
  next
    fix u' h
    assume a: "map_of (changeStreams ?m') u' = Some h"
    show "map_of (opened ?m') h = Some u'"
    proof (cases "u' = u")
      case True
      with a show ?thesis by (simp add: cs opm)
    next
      case False
      with a have c: "map_of (changeStreams m) u' = Some h" by (simp add: cs)
      from mongo_ok_owner [OF ok c] have o: "map_of (opened m) h = Some u'" .
      from watch_fresh [OF ok c] o show ?thesis by (simp add: opm)
    qed
  qed
qed



subsection \<open>The invariant of the subscription index\<close>

lemma subs_distinctI:
  "distinct (map fst (userSubscriptions s)) \<Longrightarrow>
   (\<And>u cs. map_of (userSubscriptions s) u = Some cs \<Longrightarrow> distinct cs) \<Longrightarrow>
   subs_distinct s"
  unfolding subs_distinct_def by blast

lemma subs_distinct_keys: "subs_distinct s \<Longrightarrow> distinct (map fst (userSubscriptions s))"
  unfolding subs_distinct_def by blast

lemma subs_distinctD:
  "subs_distinct s \<Longrightarrow> map_of (userSubscriptions s) u = Some cs \<Longrightarrow> distinct cs"
  unfolding subs_distinct_def by blast

lemma subs_distinct_cong:
  "userSubscriptions s' = userSubscriptions s \<Longrightarrow> subs_distinct s \<Longrightarrow> subs_distinct s'"
  by (simp add: subs_distinct_def)

lemma subscribers_distinct: "subs_distinct s \<Longrightarrow> distinct (subscribers s u)"
  by (cases "map_of (userSubscriptions s) u") (auto simp: subscribers_def dest: subs_distinctD)

subsection \<open>Subscribing\<close>

lemma handleUserSubscription_unfold:
  "handleUserSubscription e c u s =
     sendMessage c
       (if isl (fst (watchUserData e u (mongoManager s)))
        then error_msg (now e) ''Failed to subscribe to user data''
        else user_msg ''subscription_confirmed'' u None (now e))
       (s\<lparr>userSubscriptions :=
            AList.map_entry u (set_add c)
              (if map_of (userSubscriptions s) u = None
               then AList.update u [] (userSubscriptions s) else userSubscriptions s),
          mongoManager := snd (watchUserData e u (mongoManager s))\<rparr>)"
proof (cases "watchUserData e u (mongoManager s)")
  case (Pair r m)
  then show ?thesis
    by (cases r) (simp_all add: handleUserSubscription_def Let_def sendError_def)
qed

lemma handleUserSubscription_clients [simp]:
  "clients (handleUserSubscription e c u s) = clients s"
  by (simp add: handleUserSubscription_unfold)

lemma handleUserSubscription_pending [simp]:
  "pending (handleUserSubscription e c u s) = pending s"
  by (simp add: handleUserSubscription_unfold)

lemma handleUserSubscription_mongo:
  "mongoManager (handleUserSubscription e c u s) = snd (watchUserData e u (mongoManager s))"
  by (simp add: handleUserSubscription_unfold)

lemma handleUserSubscription_sent:
  "sent (handleUserSubscription e c u s) =
     sent s @ (if map_of (clients s) c = Some OPEN
               then [(c, if isl (fst (watchUserData e u (mongoManager s)))
                         then error_msg (now e) ''Failed to subscribe to user data''
                         else user_msg ''subscription_confirmed'' u None (now e))]
               else [])"
  by (simp add: handleUserSubscription_unfold sendMessage_sent)

lemma handleUserSubscription_map_of:
  "map_of (userSubscriptions (handleUserSubscription e c u s)) u' =
     (if u' = u then Some (set_add c (subscribers s u)) else map_of (userSubscriptions s) u')"
  by (auto simp: handleUserSubscription_unfold AList.map_of_map_entry AList.update_conv'
        subscribers_def split: option.split)

lemma handleUserSubscription_keys:
  "distinct (map fst (userSubscriptions s)) \<Longrightarrow>
   distinct (map fst (userSubscriptions (handleUserSubscription e c u s)))"
  by (simp add: handleUserSubscription_unfold AList.distinct_map_entry AList.distinct_update)

lemma handleUserSubscription_subs_distinct:
  assumes ok: "subs_distinct s"
  shows "subs_distinct (handleUserSubscription e c u s)"
proof (rule subs_distinctI)
  show "distinct (map fst (userSubscriptions (handleUserSubscription e c u s)))"
    using ok by (simp add: handleUserSubscription_keys subs_distinct_keys)
next
  fix u' cs
  assume a: "map_of (userSubscriptions (handleUserSubscription e c u s)) u' = Some cs"
  show "distinct cs"
  proof (cases "u' = u")
    case True
    with a have "cs = set_add c (subscribers s u)"
      by (simp add: handleUserSubscription_map_of)
    with subscribers_distinct [OF ok, of u] show ?thesis by simp
  next
    case False
    with a have "map_of (userSubscriptions s) u' = Some cs"
      by (simp add: handleUserSubscription_map_of)
    from subs_distinctD [OF ok this] show ?thesis .
  qed
qed

lemma handleUserSubscription_start_subs:
  "userSubscriptions (handleUserSubscription_start e c u s) =
   userSubscriptions (handleUserSubscription e c u s)"
  by (simp add: handleUserSubscription_unfold handleUserSubscription_start_def Let_def
        split: option.split)

lemma handleUserSubscription_start_clients [simp]:
  "clients (handleUserSubscription_start e c u s) = clients s"
  by (simp add: handleUserSubscription_start_def Let_def split: option.split)

lemma handleUserSubscription_start_mongo:
  "mongoManager (handleUserSubscription_start e c u s) =
     (if stops (mongoManager s) \<and> map_of (changeStreams (mongoManager s)) u = None
      then snd (watchUserData_open e u (mongoManager s)) else mongoManager s)"
  by (auto simp: handleUserSubscription_start_def Let_def stops_def split: option.split)

lemma handleUserSubscription_start_pending:
  "pending (handleUserSubscription_start e c u s) =
     pending s @ (if stops (mongoManager s)
                  then (case map_of (changeStreams (mongoManager s)) u of
                          None \<Rightarrow> [] | Some h \<Rightarrow> [Subscription_closing c u h])
                  else [])"
  by (auto simp: handleUserSubscription_start_def Let_def stops_def split: option.split)

lemma handleUserSubscription_start_sent:
  "sent (handleUserSubscription_start e c u s) =
     sent s @ (if map_of (clients s) c = Some OPEN
                  \<and> \<not> (stops (mongoManager s) \<and> map_of (changeStreams (mongoManager s)) u \<noteq> None)
               then [(c, if \<not> collection_set (mongoManager s) \<or> \<not> isConnected (mongoManager s)
                            \<or> (enableChangeStreams (mongoManager s) \<and> watchThrows e)
                         then error_msg (now e) ''Failed to subscribe to user data''
                         else user_msg ''subscription_confirmed'' u None (now e))]
               else [])"
  by (auto simp: handleUserSubscription_start_def Let_def stops_def subscription_reply_sent
        watchUserData_open_result split: option.split)

lemma handleUserSubscription_start_subs_distinct:
  "subs_distinct s \<Longrightarrow> subs_distinct (handleUserSubscription_start e c u s)"
  by (rule subs_distinct_cong [OF handleUserSubscription_start_subs])
     (rule handleUserSubscription_subs_distinct)

lemma handleUserSubscription_start_ok:
  "mongo_ok (mongoManager s) \<Longrightarrow> mongo_ok (mongoManager (handleUserSubscription_start e c u s))"
  by (simp add: handleUserSubscription_start_mongo watchUserData_open_ok)


subsection \<open>Unsubscribing\<close>

lemma handleUserUnsubscription_start_clients [simp]:
  "clients (handleUserUnsubscription_start e c u s) = clients s"
  by (simp add: handleUserUnsubscription_start_def Let_def split: option.split)

lemma handleUserUnsubscription_start_mongo [simp]:
  "mongoManager (handleUserUnsubscription_start e c u s) = mongoManager s"
  by (simp add: handleUserUnsubscription_start_def Let_def split: option.split)

lemma handleUserUnsubscription_start_map_of:
  "map_of (userSubscriptions (handleUserUnsubscription_start e c u s)) u' =
     (if u' = u
      then (case map_of (userSubscriptions s) u of
              None \<Rightarrow> None
            | Some cs \<Rightarrow>
                if set_delete c cs = [] \<and> map_of (changeStreams (mongoManager s)) u = None
                then None else Some (set_delete c cs))
      else map_of (userSubscriptions s) u')"
  by (auto simp: handleUserUnsubscription_start_def Let_def AList.delete_conv'
        AList.map_of_map_entry split: option.split)

lemma handleUserUnsubscription_start_keys:
  "distinct (map fst (userSubscriptions s)) \<Longrightarrow>
   distinct (map fst (userSubscriptions (handleUserUnsubscription_start e c u s)))"
  by (simp add: handleUserUnsubscription_start_def Let_def AList.distinct_delete
        AList.distinct_map_entry split: option.split)

lemma handleUserUnsubscription_start_pending:
  "pending (handleUserUnsubscription_start e c u s) =
     pending s @ (case map_of (userSubscriptions s) u of
                    None \<Rightarrow> []
                  | Some cs \<Rightarrow>
                      if set_delete c cs = []
                      then (case map_of (changeStreams (mongoManager s)) u of
                              None \<Rightarrow> [] | Some h \<Rightarrow> [Unsubscription_closing c u h])
                      else [])"
  by (simp add: handleUserUnsubscription_start_def Let_def split: option.split)

lemma handleUserUnsubscription_start_sent:
  "sent (handleUserUnsubscription_start e c u s) =
     sent s @ (if map_of (clients s) c = Some OPEN
                  \<and> pending (handleUserUnsubscription_start e c u s) = pending s
               then [(c, user_msg ''unsubscription_confirmed'' u None (now e))] else [])"
  by (simp add: handleUserUnsubscription_start_def Let_def unsubscription_reply_sent
        split: option.split)

lemma handleUserUnsubscription_start_subs_distinct:
  assumes ok: "subs_distinct s"
  shows "subs_distinct (handleUserUnsubscription_start e c u s)"
proof (rule subs_distinctI)
  show "distinct (map fst (userSubscriptions (handleUserUnsubscription_start e c u s)))"
    using ok by (simp add: handleUserUnsubscription_start_keys subs_distinct_keys)
next
  fix u' cs
  assume a: "map_of (userSubscriptions (handleUserUnsubscription_start e c u s)) u' = Some cs"
  show "distinct cs"
  proof (cases "u' = u")
    case True
    with a obtain cs0 where cs0: "map_of (userSubscriptions s) u = Some cs0"
      and cs: "cs = set_delete c cs0"
      by (auto simp: handleUserUnsubscription_start_map_of split: option.splits if_splits)
    from subs_distinctD [OF ok cs0] cs show ?thesis by simp
  next
    case False
    with a have "map_of (userSubscriptions s) u' = Some cs"
      by (simp add: handleUserUnsubscription_start_map_of)
    from subs_distinctD [OF ok this] show ?thesis .
  qed
qed

subsection \<open>Fetching once\<close>

lemma handleGetUserData_start_fields [simp]:
  "clients (handleGetUserData_start e c u s) = clients s"
  "userSubscriptions (handleGetUserData_start e c u s) = userSubscriptions s"
  "mongoManager (handleGetUserData_start e c u s) = mongoManager s"
  by (simp_all add: handleGetUserData_start_def)

lemma handleGetUserData_start_pending:
  "pending (handleGetUserData_start e c u s) =
     pending s @ (if collection_set (mongoManager s) \<and> isConnected (mongoManager s)
                  then [Get_finding c u] else [])"
  by (simp add: handleGetUserData_start_def)

lemma handleGetUserData_start_sent:
  "sent (handleGetUserData_start e c u s) =
     sent s @ (if map_of (clients s) c = Some OPEN
                  \<and> \<not> (collection_set (mongoManager s) \<and> isConnected (mongoManager s))
               then [(c, error_msg (now e) ''Failed to get user data'')] else [])"
  by (simp add: handleGetUserData_start_def getUserData_reply_sent)

subsection \<open>Disconnecting\<close>

lemma disconnect_entry_fields [simp]:
  "clients (disconnect_entry c u s) = clients s"
  "sent (disconnect_entry c u s) = sent s"
  "mongoManager (disconnect_entry c u s) = mongoManager s"
  by (simp_all add: disconnect_entry_def split: option.split)

lemma disconnect_entry_map_of:
  "map_of (userSubscriptions (disconnect_entry c u s)) u' =
     (if u' = u then Option.bind (map_of (userSubscriptions s) u) (without c)
      else map_of (userSubscriptions s) u')"
  by (auto simp: disconnect_entry_def without_def AList.delete_conv' AList.map_of_map_entry
        split: option.split)

lemma disconnect_entry_keys:
  "distinct (map fst (userSubscriptions s)) \<Longrightarrow>
   distinct (map fst (userSubscriptions (disconnect_entry c u s)))"
  by (simp add: disconnect_entry_def AList.distinct_delete AList.distinct_map_entry
        split: option.split)

lemma disconnect_entry_pending:
  "pending (disconnect_entry c u s) = pending s @ stop_task c s u"
  by (simp add: disconnect_entry_def stop_task_def split: option.split)

lemma disconnect_entry_subs_distinct:
  assumes ok: "subs_distinct s"
  shows "subs_distinct (disconnect_entry c u s)"
proof (rule subs_distinctI)
  show "distinct (map fst (userSubscriptions (disconnect_entry c u s)))"
    using ok by (simp add: disconnect_entry_keys subs_distinct_keys)
next
  fix u' cs
  assume a: "map_of (userSubscriptions (disconnect_entry c u s)) u' = Some cs"
  show "distinct cs"
  proof (cases "u' = u")
    case True
    with a obtain cs0 where cs0: "map_of (userSubscriptions s) u = Some cs0"
      and w: "without c cs0 = Some cs"
      by (auto simp: disconnect_entry_map_of Option.bind_eq_Some_conv)
    from without_distinct [OF w subs_distinctD [OF ok cs0]] show ?thesis .
  next
    case False
    with a have "map_of (userSubscriptions s) u' = Some cs"
      by (simp add: disconnect_entry_map_of)
    from subs_distinctD [OF ok this] show ?thesis .
  qed
qed

lemma fold_disconnect_entry_fields [simp]:
  "clients (fold (disconnect_entry c) us s) = clients s"
  "sent (fold (disconnect_entry c) us s) = sent s"
  "mongoManager (fold (disconnect_entry c) us s) = mongoManager s"
  by (induction us arbitrary: s) simp_all

lemma fold_disconnect_entry_subs_distinct:
  "subs_distinct s \<Longrightarrow> subs_distinct (fold (disconnect_entry c) us s)"
  by (induction us arbitrary: s) (simp_all add: disconnect_entry_subs_distinct)

lemma fold_disconnect_entry_map_of:
  "map_of (userSubscriptions (fold (disconnect_entry c) us s)) u =
     (if u \<in> set us then Option.bind (map_of (userSubscriptions s) u) (without c)
      else map_of (userSubscriptions s) u)"
  by (induction us arbitrary: s) (auto simp: disconnect_entry_map_of bind_without_idem)

lemma handleClientDisconnect_map_of:
  "map_of (userSubscriptions (handleClientDisconnect c s)) u =
     Option.bind (map_of (userSubscriptions s) u) (without c)"
proof (cases "map_of (userSubscriptions s) u")
  case None
  then show ?thesis
    by (simp add: handleClientDisconnect_def Let_def fold_disconnect_entry_map_of)
next
  case (Some cs)
  then have "u \<in> set (map fst (userSubscriptions s))"
    by (metis map_of_eq_None_iff option.distinct(1) set_map)
  with Some show ?thesis
    by (simp add: handleClientDisconnect_def Let_def fold_disconnect_entry_map_of)
qed

lemma handleClientDisconnect_clients:
  "clients (handleClientDisconnect c s) = AList.delete c (clients s)"
  by (simp add: handleClientDisconnect_def Let_def)

lemma handleClientDisconnect_fields [simp]:
  "sent (handleClientDisconnect c s) = sent s"
  "mongoManager (handleClientDisconnect c s) = mongoManager s"
  by (simp_all add: handleClientDisconnect_def Let_def)

lemma handleClientDisconnect_subs_distinct:
  "subs_distinct s \<Longrightarrow> subs_distinct (handleClientDisconnect c s)"
  by (rule subs_distinct_cong [of _ "fold (disconnect_entry c) (map fst (userSubscriptions s)) s"])
     (simp_all add: handleClientDisconnect_def Let_def fold_disconnect_entry_subs_distinct)

subsection \<open>The continuation of a suspended call\<close>

lemma resume_clients [simp]: "clients (resume e t s) = clients s"
  by (cases t) simp_all

lemma resume_pending [simp]: "pending (resume e t s) = pending s"
  by (cases t) simp_all

lemma resume_map_of:
  "map_of (userSubscriptions (resume e t s)) u' =
     (case t of
        Unsubscription_closing c u h \<Rightarrow> if u' = u then None else map_of (userSubscriptions s) u'
      | _ \<Rightarrow> map_of (userSubscriptions s) u')"
  by (cases t) (simp_all add: AList.delete_conv')

lemma resume_keys:
  "distinct (map fst (userSubscriptions s)) \<Longrightarrow>
   distinct (map fst (userSubscriptions (resume e t s)))"
  by (cases t) (simp_all add: AList.distinct_delete)

lemma resume_subs_distinct:
  assumes ok: "subs_distinct s"
  shows "subs_distinct (resume e t s)"
proof (rule subs_distinctI)
  show "distinct (map fst (userSubscriptions (resume e t s)))"
    using ok by (simp add: resume_keys subs_distinct_keys)
next
  fix u' cs
  assume "map_of (userSubscriptions (resume e t s)) u' = Some cs"
  then have "map_of (userSubscriptions s) u' = Some cs"
    by (cases t) (simp_all add: AList.delete_conv' split: if_splits)
  from subs_distinctD [OF ok this] show "distinct cs" .
qed

lemma resume_mongo:
  "mongoManager (resume e t s) =
     (case t of
        Subscription_closing c u h \<Rightarrow>
          snd (watchUserData_open e u (stopWatching_settled e u h (mongoManager s)))
      | Unsubscription_closing c u h \<Rightarrow> stopWatching_settled e u h (mongoManager s)
      | Stop_closing u h \<Rightarrow> stopWatching_settled e u h (mongoManager s)
      | Get_finding c u \<Rightarrow> mongoManager s)"
  by (cases t) simp_all

lemma resume_ok: "mongo_ok (mongoManager s) \<Longrightarrow> mongo_ok (mongoManager (resume e t s))"
  by (cases t) (simp_all add: watchUserData_open_ok stopWatching_settled_ok)

lemma resume_sent:
  "sent (resume e t s) =
     sent s @ (case t of
        Subscription_closing c u h \<Rightarrow>
          if map_of (clients s) c = Some OPEN
          then [(c, if watchThrows e then error_msg (now e) ''Failed to subscribe to user data''
                    else user_msg ''subscription_confirmed'' u None (now e))]
          else []
      | Unsubscription_closing c u h \<Rightarrow>
          if map_of (clients s) c = Some OPEN
          then [(c, user_msg ''unsubscription_confirmed'' u None (now e))] else []
      | Stop_closing u h \<Rightarrow> []
      | Get_finding c u \<Rightarrow>
          if map_of (clients s) c = Some OPEN
          then [(c, case loadUserData_settled e u of
                      Inr (Some d) \<Rightarrow> user_msg ''user_data'' u (Some d) (now e)
                    | Inr None \<Rightarrow> error_msg (now e) ''User data not found''
                    | Inl _ \<Rightarrow> error_msg (now e) ''Failed to get user data'')]
          else [])"
  by (cases t)
     (simp_all add: subscription_reply_sent unsubscription_reply_sent getUserData_reply_sent
        watchUserData_open_result)

subsection \<open>The listeners of a stream\<close>

lemma on_change_fields [simp]:
  "clients (on_change e u d s) = clients s"
  "userSubscriptions (on_change e u d s) = userSubscriptions s"
  "mongoManager (on_change e u d s) = mongoManager s"
  "pending (on_change e u d s) = pending s"
  by (simp_all add: on_change_def split: option.split sum.split)

lemma on_change_sent:
  "sent (on_change e u d s) =
     sent s @ (case d of None \<Rightarrow> []
               | Some doc \<Rightarrow>
                   (case convertMongoDocument doc of Inl _ \<Rightarrow> []
                    | Inr ud \<Rightarrow>
                        map (\<lambda>c. (c, user_msg ''data_update'' u (Some ud) (now e)))
                          (filter (\<lambda>c. map_of (clients s) c = Some OPEN) (subscribers s u))))"
  by (simp add: on_change_def broadcastToUser_sent split: sum.split option.split)

lemma on_error_fields [simp]:
  "clients (on_error h s) = clients s"
  "userSubscriptions (on_error h s) = userSubscriptions s"
  "sent (on_error h s) = sent s"
  "pending (on_error h s) = pending s"
  "changeStreams (mongoManager (on_error h s)) = changeStreams (mongoManager s)"
  "opened (mongoManager (on_error h s)) = opened (mongoManager s)"
  "closeLog (mongoManager (on_error h s)) = closeLog (mongoManager s)"
  "collection_set (mongoManager (on_error h s)) = collection_set (mongoManager s)"
  "isConnected (mongoManager (on_error h s)) = isConnected (mongoManager s)"
  "enableChangeStreams (mongoManager (on_error h s)) = enableChangeStreams (mongoManager s)"
  by (simp_all add: on_error_def)

lemma on_error_ok: "mongo_ok (mongoManager s) \<Longrightarrow> mongo_ok (mongoManager (on_error h s))"
  by (rule mongo_ok_cong [of _ "mongoManager s"]) simp_all


subsection \<open>Subscribing, seen through the subscriber set and the watch\<close>

lemma subscribers_handleUserSubscription:
  "subscribers (handleUserSubscription e c u s) u' =
     (if u' = u then set_add c (subscribers s u) else subscribers s u')"
  by (simp add: subscribers_def handleUserSubscription_map_of)

lemma watch_handleUserSubscription:
  "watch (handleUserSubscription e c u s) u' =
     map_of (changeStreams (snd (watchUserData e u (mongoManager s)))) u'"
  by (simp add: watch_def handleUserSubscription_mongo)

lemma watchUserData_fails_no_watch:
  assumes "isl (fst (watchUserData e u m))" and "map_of (changeStreams m) u = None"
  shows "map_of (changeStreams (snd (watchUserData e u m))) u = None"
proof (cases "stops m")
  case False
  with assms show ?thesis by (simp add: watchUserData_idle)
next
  case True
  with assms(1) have "watchThrows e" by (auto simp: watchUserData_fails stops_def)
  with True assms(2) show ?thesis
    by (simp add: watchUserData_throws stopWatching_map_of)
qed

lemma handleUserSubscription_again:
  assumes "c \<in> set (subscribers s u)"
  shows "userSubscriptions (handleUserSubscription e c u s) = userSubscriptions s"
proof -
  from assms obtain cs where cs: "map_of (userSubscriptions s) u = Some cs" and c: "c \<in> set cs"
    by (cases "map_of (userSubscriptions s) u") (auto simp: subscribers_def)
  from c have "set_add c cs = cs" by (rule set_add_member)
  with cs show ?thesis
    by (simp add: handleUserSubscription_unfold map_entry_same)
qed

lemma handleUserSubscription_closeLog:
  "closeLog (mongoManager (handleUserSubscription e c u s)) =
     closeLog (mongoManager s) @
     (if stops (mongoManager s)
      then (case watch s u of None \<Rightarrow> [] | Some h \<Rightarrow> [(h, closeThrows e h)]) else [])"
  by (simp add: handleUserSubscription_mongo watchUserData_closeLog watch_def)

lemma handleUserSubscription_opened:
  "opened (mongoManager (handleUserSubscription e c u s)) =
     opened (mongoManager s) @
     (if opens e (mongoManager s) then [(length (opened (mongoManager s)), u)] else [])"
  by (simp add: handleUserSubscription_mongo watchUserData_opened)

lemma handleUserSubscription_watch_opens:
  "opens e (mongoManager s) \<Longrightarrow>
   watch (handleUserSubscription e c u s) u = Some (length (opened (mongoManager s)))"
  by (simp add: watch_handleUserSubscription watchUserData_map_of)

lemma handleUserSubscription_idle:
  "\<not> stops (mongoManager s) \<Longrightarrow> mongoManager (handleUserSubscription e c u s) = mongoManager s"
  by (simp add: handleUserSubscription_mongo watchUserData_idle)

lemma handleUserSubscription_confirmed:
  assumes "\<not> isl (fst (watchUserData e u (mongoManager s)))" and "map_of (clients s) c = Some OPEN"
  shows "sent (handleUserSubscription e c u s) =
           sent s @ [(c, user_msg ''subscription_confirmed'' u None (now e))]"
  using assms by (simp add: handleUserSubscription_sent)

subsection \<open>The error listener of a stream\<close>

lemma step_Stream_error_fields [simp]:
  "userSubscriptions (step s (e, Stream_error h)) = userSubscriptions s"
  "clients (step s (e, Stream_error h)) = clients s"
  "sent (step s (e, Stream_error h)) = sent s"
  "changeStreams (mongoManager (step s (e, Stream_error h))) = changeStreams (mongoManager s)"
  "opened (mongoManager (step s (e, Stream_error h))) = opened (mongoManager s)"
  "closeLog (mongoManager (step s (e, Stream_error h))) = closeLog (mongoManager s)"
  "collection_set (mongoManager (step s (e, Stream_error h))) = collection_set (mongoManager s)"
  "isConnected (mongoManager (step s (e, Stream_error h))) = isConnected (mongoManager s)"
  "enableChangeStreams (mongoManager (step s (e, Stream_error h))) = enableChangeStreams (mongoManager s)"
  by (simp_all split: option.split)

lemma step_Stream_error_watch [simp]: "watch (step s (e, Stream_error h)) u = watch s u"
  by (simp add: watch_def del: step.simps)

lemma step_Stream_error_opens [simp]:
  "opens e' (mongoManager (step s (e, Stream_error h))) = opens e' (mongoManager s)"
  "stops (mongoManager (step s (e, Stream_error h))) = stops (mongoManager s)"
  by (simp_all add: opens_def stops_def del: step.simps)

subsection \<open>The invariants in every state the broker reaches\<close>

lemma handleMessage_subs_distinct:
  "subs_distinct s \<Longrightarrow> subs_distinct (handleMessage e c msg s)"
proof (cases msg)
  case (Subscribe_user u)
  assume "subs_distinct s"
  with Subscribe_user show ?thesis
    by (simp add: handleMessage_def handleUserSubscription_start_subs_distinct)
next
  case (Unsubscribe_user u)
  assume "subs_distinct s"
  with Unsubscribe_user show ?thesis
    by (simp add: handleMessage_def handleUserUnsubscription_start_subs_distinct)
next
  case (Get_user_data u)
  assume "subs_distinct s"
  with Get_user_data show ?thesis
    by (simp add: handleMessage_def subs_distinct_cong [of _ s])
next
  case (Other_type ty)
  assume "subs_distinct s"
  with Other_type show ?thesis
    by (simp add: handleMessage_def subs_distinct_cong [of _ s])
next
  case Null_message
  assume "subs_distinct s"
  with Null_message show ?thesis by (simp add: handleMessage_def)
next
  case Malformed
  assume "subs_distinct s"
  with Malformed show ?thesis
    by (simp add: handleMessage_def subs_distinct_cong [of _ s])
qed

lemma handleMessage_ok:
  "mongo_ok (mongoManager s) \<Longrightarrow> mongo_ok (mongoManager (handleMessage e c msg s))"
  by (cases msg) (simp_all add: handleMessage_def handleUserSubscription_start_ok)

lemma step_subs_distinct:
  assumes ok: "subs_distinct s"
  shows "subs_distinct (step s x)"
proof (cases x)
  case (Pair e ev)
  show ?thesis
  proof (cases ev)
    case (Connection c)
    with Pair ok show ?thesis by (simp add: subs_distinct_cong [of _ s])
  next
    case (Message c msg)
    with Pair ok show ?thesis by (simp add: handleMessage_subs_distinct)
  next
    case (Socket_state c r)
    with Pair ok show ?thesis by (simp add: subs_distinct_cong [of _ s])
  next
    case (Socket_closed c)
    with Pair ok show ?thesis by (simp add: handleClientDisconnect_subs_distinct)
  next
    case (Change h d)
    with Pair ok show ?thesis by (simp add: subs_distinct_cong [of _ s] split: option.split)
  next
    case (Stream_error h)
    with Pair ok show ?thesis by (simp add: subs_distinct_cong [of _ s] split: option.split)
  next
    case (Settled n)
    have "subs_distinct (s\<lparr>pending := take n (pending s) @ drop (Suc n) (pending s)\<rparr>)"
      using ok by (simp add: subs_distinct_cong [of _ s])
    then have "subs_distinct (resume e (pending s ! n)
        (s\<lparr>pending := take n (pending s) @ drop (Suc n) (pending s)\<rparr>))"
      by (rule resume_subs_distinct)
    with Pair Settled ok show ?thesis by simp
  qed
qed

lemma step_ok:
  assumes ok: "mongo_ok (mongoManager s)"
  shows "mongo_ok (mongoManager (step s x))"
proof (cases x)
  case (Pair e ev)
  show ?thesis
  proof (cases ev)
    case (Settled n)
    have "mongo_ok (mongoManager (s\<lparr>pending := take n (pending s) @ drop (Suc n) (pending s)\<rparr>))"
      using ok by simp
    then have "mongo_ok (mongoManager (resume e (pending s ! n)
        (s\<lparr>pending := take n (pending s) @ drop (Suc n) (pending s)\<rparr>)))"
      by (rule resume_ok)
    with Pair Settled ok show ?thesis by simp
  qed (use Pair ok in \<open>simp_all add: handleMessage_ok on_error_ok split: option.split\<close>)
qed

lemma foldl_step_subs_distinct: "subs_distinct s \<Longrightarrow> subs_distinct (foldl step s evs)"
  by (induction evs arbitrary: s) (simp_all add: step_subs_distinct)

lemma foldl_step_ok: "mongo_ok (mongoManager s) \<Longrightarrow> mongo_ok (mongoManager (foldl step s evs))"
  by (induction evs arbitrary: s) (simp_all add: step_ok)

lemma initial_subs_distinct: "subs_distinct (initial en co)"
  by (simp add: initial_def subs_distinct_def)

lemma initial_ok: "mongo_ok (mongoManager (initial en co))"
  by (simp add: initial_def mongo_ok_def)

lemma run_subs_distinct: "subs_distinct (run en co evs)"
  unfolding run_def by (rule foldl_step_subs_distinct [OF initial_subs_distinct])

lemma run_mongo_ok: "mongo_ok (mongoManager (run en co evs))"
  unfolding run_def by (rule foldl_step_ok [OF initial_ok])

subsection \<open>The configuration does not change\<close>

lemma handleMessage_flags:
  "collection_set (mongoManager (handleMessage e c msg s)) = collection_set (mongoManager s) \<and>
   isConnected (mongoManager (handleMessage e c msg s)) = isConnected (mongoManager s) \<and>
   enableChangeStreams (mongoManager (handleMessage e c msg s)) = enableChangeStreams (mongoManager s)"
  by (cases msg) (simp_all add: handleMessage_def handleUserSubscription_start_mongo)

lemma resume_flags:
  "collection_set (mongoManager (resume e t s)) = collection_set (mongoManager s) \<and>
   isConnected (mongoManager (resume e t s)) = isConnected (mongoManager s) \<and>
   enableChangeStreams (mongoManager (resume e t s)) = enableChangeStreams (mongoManager s)"
  by (cases t) simp_all

lemma step_flags:
  "collection_set (mongoManager (step s x)) = collection_set (mongoManager s) \<and>
   isConnected (mongoManager (step s x)) = isConnected (mongoManager s) \<and>
   enableChangeStreams (mongoManager (step s x)) = enableChangeStreams (mongoManager s)"
proof (cases x)
  case (Pair e ev)
  then show ?thesis
    by (cases ev) (simp_all add: handleMessage_flags resume_flags split: option.split)
qed

lemma foldl_step_flags:
  "collection_set (mongoManager (foldl step s evs)) = collection_set (mongoManager s) \<and>
   isConnected (mongoManager (foldl step s evs)) = isConnected (mongoManager s) \<and>
   enableChangeStreams (mongoManager (foldl step s evs)) = enableChangeStreams (mongoManager s)"
  by (induction evs arbitrary: s) (simp_all add: step_flags)

lemma run_flags:
  "collection_set (mongoManager (run en co evs)) = co"
  "isConnected (mongoManager (run en co evs)) = co"
  "enableChangeStreams (mongoManager (run en co evs)) = en"
  by (simp_all add: run_def foldl_step_flags) (simp_all add: initial_def)

subsection \<open>The messages a step sends\<close>

lemma handleMessage_sent:
  assumes old: "\<And>c m. (c, m) \<in> set (sent s) \<Longrightarrow> P m"
    and sub: "\<And>u t. P (user_msg ''subscription_confirmed'' u None t)"
    and unsub: "\<And>u t. P (user_msg ''unsubscription_confirmed'' u None t)"
    and err: "\<And>t txt. P (error_msg t txt)"
    and m: "(c, m) \<in> set (sent (handleMessage e c' msg s))"
  shows "P m"
proof (cases msg)
  case (Subscribe_user u)
  with m have "(c, m) \<in> set (sent s) \<or> m = error_msg (now e) ''Failed to subscribe to user data''
      \<or> m = user_msg ''subscription_confirmed'' u None (now e)"
    by (auto simp: handleMessage_def handleUserSubscription_start_sent split: if_splits)
  with old sub err show ?thesis by auto
next
  case (Unsubscribe_user u)
  with m have "(c, m) \<in> set (sent s) \<or> m = user_msg ''unsubscription_confirmed'' u None (now e)"
    by (auto simp: handleMessage_def handleUserUnsubscription_start_sent split: if_splits)
  with old unsub show ?thesis by auto
next
  case (Get_user_data u)
  with m have "(c, m) \<in> set (sent s) \<or> (\<exists>txt. m = error_msg (now e) txt)"
    by (auto simp: handleMessage_def handleGetUserData_start_sent split: if_splits)
  with old err show ?thesis by auto
next
  case (Other_type ty)
  with m have "(c, m) \<in> set (sent s) \<or> (\<exists>txt. m = error_msg (now e) txt)"
    by (auto simp: handleMessage_def sendError_sent split: if_splits)
  with old err show ?thesis by auto
next
  case Null_message
  with m old show ?thesis by (simp add: handleMessage_def)
next
  case Malformed
  with m have "(c, m) \<in> set (sent s) \<or> (\<exists>txt. m = error_msg (now e) txt)"
    by (auto simp: handleMessage_def sendError_sent split: if_splits)
  with old err show ?thesis by auto
qed

lemma resume_sent_cases:
  assumes old: "\<And>c m. (c, m) \<in> set (sent s) \<Longrightarrow> P m"
    and sub: "\<And>u t. P (user_msg ''subscription_confirmed'' u None t)"
    and unsub: "\<And>u t. P (user_msg ''unsubscription_confirmed'' u None t)"
    and err: "\<And>t txt. P (error_msg t txt)"
    and dat: "\<And>u d t. P (user_msg ''user_data'' u (Some d) t)"
    and m: "(c, m) \<in> set (sent (resume e t s))"
  shows "P m"
proof (cases t)
  case (Subscription_closing c' u h)
  with m have "(c, m) \<in> set (sent s) \<or> m = error_msg (now e) ''Failed to subscribe to user data''
      \<or> m = user_msg ''subscription_confirmed'' u None (now e)"
    by (auto simp: resume_sent simp del: resume.simps split: if_splits)
  with old sub err show ?thesis by auto
next
  case (Unsubscription_closing c' u h)
  with m have "(c, m) \<in> set (sent s) \<or> m = user_msg ''unsubscription_confirmed'' u None (now e)"
    by (auto simp: resume_sent simp del: resume.simps split: if_splits)
  with old unsub show ?thesis by auto
next
  case (Stop_closing u h)
  with m old show ?thesis by (simp add: resume_sent del: resume.simps)
next
  case (Get_finding c' u)
  with m have "(c, m) \<in> set (sent s) \<or> (\<exists>txt. m = error_msg (now e) txt)
      \<or> (\<exists>d. m = user_msg ''user_data'' u (Some d) (now e))"
    by (auto simp: resume_sent simp del: resume.simps split: if_splits sum.splits option.splits)
  with old dat err show ?thesis by auto
qed

lemma step_sent:
  assumes old: "\<And>c m. (c, m) \<in> set (sent s) \<Longrightarrow> P m"
    and con: "\<And>c t. P (connection_msg c t)"
    and sub: "\<And>u t. P (user_msg ''subscription_confirmed'' u None t)"
    and unsub: "\<And>u t. P (user_msg ''unsubscription_confirmed'' u None t)"
    and err: "\<And>t txt. P (error_msg t txt)"
    and dat: "\<And>u d t. P (user_msg ''user_data'' u (Some d) t)"
    and upd: "\<And>u d t. opened (mongoManager s) \<noteq> [] \<Longrightarrow> P (user_msg ''data_update'' u (Some d) t)"
    and m: "(c, m) \<in> set (sent (step s x))"
  shows "P m"
proof (cases x)
  case (Pair e ev)
  show ?thesis
  proof (cases ev)
    case (Connection c')
    with Pair m have "(c, m) \<in> set (sent s) \<or> m = connection_msg c' (now e)"
      by (auto simp: sendMessage_sent split: if_splits)
    with old con show ?thesis by auto
  next
    case (Message c' msg)
    with Pair m have "(c, m) \<in> set (sent (handleMessage e c' msg s))" by simp
    from handleMessage_sent [of s P, OF old sub unsub err this] show ?thesis .
  next
    case (Socket_state c' r)
    with Pair m old show ?thesis by simp
  next
    case (Socket_closed c')
    with Pair m old show ?thesis by simp
  next
    case (Change h d)
    show ?thesis
    proof (cases "map_of (opened (mongoManager s)) h")
      case None
      with Pair Change m old show ?thesis by simp
    next
      case (Some u)
      then have ne: "opened (mongoManager s) \<noteq> []" by auto
      from Pair Change Some m have "(c, m) \<in> set (sent s)
          \<or> (\<exists>ud. m = user_msg ''data_update'' u (Some ud) (now e))"
        by (auto simp: on_change_sent split: option.splits sum.splits)
      with old upd [OF ne] show ?thesis by auto
    qed
  next
    case (Stream_error h)
    with Pair m old show ?thesis by (simp split: option.splits)
  next
    case (Settled n)
    show ?thesis
    proof (cases "n < length (pending s)")
      case False
      with Pair Settled m old show ?thesis by simp
    next
      case True
      let ?s' = "s\<lparr>pending := take n (pending s) @ drop (Suc n) (pending s)\<rparr>"
      have old': "\<And>c m. (c, m) \<in> set (sent ?s') \<Longrightarrow> P m" using old by simp
      from True Pair Settled m have "(c, m) \<in> set (sent (resume e (pending s ! n) ?s'))" by simp
      from resume_sent_cases [of ?s' P, OF old' sub unsub err dat this] show ?thesis .
    qed
  qed
qed



subsection \<open>Change streams that are not enabled\<close>

lemma idle_not_stops: "idle m \<Longrightarrow> \<not> stops m"
  by (simp add: idle_def stops_def)

lemma idle_stateI: "idle (mongoManager s) \<Longrightarrow> list_all finding (pending s) \<Longrightarrow> idle_state s"
  by (simp add: idle_state_def)

lemma idle_state_idle: "idle_state s \<Longrightarrow> idle (mongoManager s)"
  by (simp add: idle_state_def)

lemma idle_state_pending: "idle_state s \<Longrightarrow> list_all finding (pending s)"
  by (simp add: idle_state_def)

lemma stop_task_idle: "idle (mongoManager s) \<Longrightarrow> stop_task c s u = []"
  by (simp add: stop_task_def idle_def split: option.split)

lemma fold_disconnect_entry_idle:
  "idle (mongoManager s) \<Longrightarrow> pending (fold (disconnect_entry c) us s) = pending s"
  by (induction us arbitrary: s) (simp_all add: disconnect_entry_pending stop_task_idle)

lemma handleMessage_idle:
  assumes i: "idle_state s"
  shows "idle_state (handleMessage e c msg s)"
proof -
  from i have m: "idle (mongoManager s)" and p: "list_all finding (pending s)"
    by (simp_all add: idle_state_def)
  from m have cs: "changeStreams (mongoManager s) = []" by (simp add: idle_def)
  show ?thesis
  proof (cases msg)
    case (Subscribe_user u)
    with m p show ?thesis
      by (simp add: idle_state_def handleMessage_def handleUserSubscription_start_mongo
            handleUserSubscription_start_pending idle_not_stops)
  next
    case (Unsubscribe_user u)
    with m p cs show ?thesis
      by (simp add: idle_state_def handleMessage_def handleUserUnsubscription_start_pending
            split: option.split)
  next
    case (Get_user_data u)
    with m p show ?thesis
      by (simp add: idle_state_def handleMessage_def handleGetUserData_start_pending)
  next
    case (Other_type ty)
    with m p show ?thesis by (simp add: idle_state_def handleMessage_def)
  next
    case Null_message
    with i show ?thesis by (simp add: handleMessage_def)
  next
    case Malformed
    with m p show ?thesis by (simp add: idle_state_def handleMessage_def)
  qed
qed

lemma list_all_without:
  "list_all P xs \<Longrightarrow> list_all P (take n xs @ drop (Suc n) xs)"
  by (auto simp: list_all_iff dest: in_set_takeD in_set_dropD)

lemma resume_finding:
  "finding t \<Longrightarrow> mongoManager (resume e t s) = mongoManager s"
  by (cases t) simp_all

lemma step_idle:
  assumes i: "idle_state s"
  shows "idle_state (step s x)"
proof (cases x)
  case (Pair e ev)
  from i have m: "idle (mongoManager s)" and p: "list_all finding (pending s)"
    by (simp_all add: idle_state_def)
  show ?thesis
  proof (cases ev)
    case (Connection c)
    with Pair m p show ?thesis by (simp add: idle_state_def)
  next
    case (Message c msg)
    with Pair i show ?thesis by (simp add: handleMessage_idle)
  next
    case (Socket_state c r)
    with Pair m p show ?thesis by (simp add: idle_state_def)
  next
    case (Socket_closed c)
    with Pair m p show ?thesis
      by (simp add: idle_state_def handleClientDisconnect_def Let_def fold_disconnect_entry_idle)
  next
    case (Change h d)
    with Pair m p show ?thesis by (simp add: idle_state_def split: option.split)
  next
    case (Stream_error h)
    from m have "map_of (opened (mongoManager s)) h = None" by (simp add: idle_def)
    with Pair Stream_error i show ?thesis by simp
  next
    case (Settled n)
    show ?thesis
    proof (cases "n < length (pending s)")
      case False
      with Pair Settled i show ?thesis by simp
    next
      case True
      with p have f: "finding (pending s ! n)" by (simp add: list_all_length)
      let ?s' = "s\<lparr>pending := take n (pending s) @ drop (Suc n) (pending s)\<rparr>"
      have "mongoManager (resume e (pending s ! n) ?s') = mongoManager s"
        using resume_finding [OF f, of e ?s'] by simp
      moreover have "list_all finding (pending (resume e (pending s ! n) ?s'))"
        using list_all_without [OF p, of n] by simp
      ultimately show ?thesis using Pair Settled True m by (simp add: idle_state_def)
    qed
  qed
qed

lemma foldl_step_idle: "idle_state s \<Longrightarrow> idle_state (foldl step s evs)"
  by (induction evs arbitrary: s) (simp_all add: step_idle)

lemma initial_idle: "idle_state (initial False co)"
  by (simp add: initial_def idle_state_def idle_def)

lemma run_idle: "idle (mongoManager (run False co evs))"
  unfolding run_def by (rule idle_state_idle [OF foldl_step_idle [OF initial_idle]])

lemma foldl_step_no_update:
  "idle_state s \<Longrightarrow>
   (\<And>c m. (c, m) \<in> set (sent s) \<Longrightarrow> msg_type m \<noteq> ''data_update'') \<Longrightarrow>
   (c, m) \<in> set (sent (foldl step s evs)) \<Longrightarrow> msg_type m \<noteq> ''data_update''"
proof (induction evs arbitrary: s)
  case Nil
  then show ?case by simp
next
  case (Cons x evs)
  show ?case
  proof (rule Cons.IH)
    show "idle_state (step s x)" using Cons.prems(1) by (rule step_idle)
  next
    fix c' m'
    assume a: "(c', m') \<in> set (sent (step s x))"
    from Cons.prems(1) have o: "opened (mongoManager s) = []" by (simp add: idle_state_def idle_def)
    show "msg_type m' \<noteq> ''data_update''"
      by (rule step_sent [of s "\<lambda>m. msg_type m \<noteq> ''data_update''", OF Cons.prems(2) _ _ _ _ _ _ a])
         (simp_all add: connection_msg_def user_msg_def error_msg_def o)
  next
    from Cons.prems(3) show "(c, m) \<in> set (sent (foldl step (step s x) evs))" by simp
  qed
qed

lemma run_no_update:
  "''data_update'' \<notin> set (map (\<lambda>x. msg_type (snd x)) (sent (run False co evs)))"
proof
  assume "''data_update'' \<in> set (map (\<lambda>x. msg_type (snd x)) (sent (run False co evs)))"
  then obtain c m where cm: "(c, m) \<in> set (sent (run False co evs))"
    and ty: "msg_type m = ''data_update''" by auto
  have "msg_type m \<noteq> ''data_update''"
  proof (rule foldl_step_no_update [of "initial False co" c m evs])
    show "idle_state (initial False co)" by (rule initial_idle)
    show "\<And>c m. (c, m) \<in> set (sent (initial False co)) \<Longrightarrow> msg_type m \<noteq> ''data_update''"
      by (simp add: initial_def)
    from cm show "(c, m) \<in> set (sent (foldl step (initial False co) evs))" by (simp add: run_def)
  qed
  with ty show False by simp
qed

subsection \<open>Counting the watches of a user\<close>





subsection \<open>Handlers that nothing overlaps: the subscription index\<close>

lemma subs_okD:
  "subs_ok s \<Longrightarrow> map_of (userSubscriptions s) u = Some cs \<Longrightarrow> cs \<noteq> [] \<and> distinct cs"
  unfolding subs_ok_def by blast

lemma subs_ok_keys: "subs_ok s \<Longrightarrow> distinct (map fst (userSubscriptions s))"
  unfolding subs_ok_def by blast

lemma subs_okI:
  "distinct (map fst (userSubscriptions s)) \<Longrightarrow>
   (\<And>u cs. map_of (userSubscriptions s) u = Some cs \<Longrightarrow> cs \<noteq> [] \<and> distinct cs) \<Longrightarrow>
   subs_ok s"
  unfolding subs_ok_def by blast

lemma subs_ok_cong: "userSubscriptions s' = userSubscriptions s \<Longrightarrow> subs_ok s \<Longrightarrow> subs_ok s'"
  by (simp add: subs_ok_def)

lemma subs_ok_distinct: "subs_ok s \<Longrightarrow> subs_distinct s"
  by (simp add: subs_ok_def subs_distinct_def)

lemma subs_ok_no_empty: "subs_ok s \<Longrightarrow> [] \<notin> set (map snd (userSubscriptions s))"
proof
  assume ok: "subs_ok s" and "[] \<in> set (map snd (userSubscriptions s))"
  then obtain u where "(u, []) \<in> set (userSubscriptions s)" by auto
  with subs_ok_keys [OF ok] have "map_of (userSubscriptions s) u = Some []" by simp
  from subs_okD [OF ok this] show False by simp
qed


lemma handleUserSubscription_subs_ok:
  assumes ok: "subs_ok s"
  shows "subs_ok (handleUserSubscription e c u s)"
proof (rule subs_okI)
  show "distinct (map fst (userSubscriptions (handleUserSubscription e c u s)))"
    using ok by (simp add: handleUserSubscription_keys subs_ok_keys)
next
  fix u' cs
  assume a: "map_of (userSubscriptions (handleUserSubscription e c u s)) u' = Some cs"
  show "cs \<noteq> [] \<and> distinct cs"
  proof (cases "u' = u")
    case True
    with a have "cs = set_add c (subscribers s u)"
      by (simp add: handleUserSubscription_map_of)
    with subscribers_distinct [OF subs_ok_distinct [OF ok], of u] show ?thesis by simp
  next
    case False
    with a have "map_of (userSubscriptions s) u' = Some cs"
      by (simp add: handleUserSubscription_map_of)
    from subs_okD [OF ok this] show ?thesis .
  qed
qed

lemma dropSubscriber_fields [simp]:
  "clients (dropSubscriber e c u s) = clients s"
  "sent (dropSubscriber e c u s) = sent s"
  "pending (dropSubscriber e c u s) = pending s"
  by (simp_all add: dropSubscriber_def split: option.split)

lemma dropSubscriber_subs:
  "userSubscriptions (dropSubscriber e c u s) = userSubscriptions (disconnect_entry c u s)"
  by (simp add: dropSubscriber_def disconnect_entry_def split: option.split)

lemma dropSubscriber_map_of:
  "map_of (userSubscriptions (dropSubscriber e c u s)) u' =
     (if u' = u then Option.bind (map_of (userSubscriptions s) u) (without c)
      else map_of (userSubscriptions s) u')"
  by (simp add: dropSubscriber_subs disconnect_entry_map_of)

lemma dropSubscriber_keys:
  "distinct (map fst (userSubscriptions s)) \<Longrightarrow>
   distinct (map fst (userSubscriptions (dropSubscriber e c u s)))"
  by (simp add: dropSubscriber_subs disconnect_entry_keys)

lemma dropSubscriber_mongo:
  "mongoManager (dropSubscriber e c u s) =
     (if Option.bind (map_of (userSubscriptions s) u) (without c) = None
         \<and> map_of (userSubscriptions s) u \<noteq> None
      then stopWatching e u (mongoManager s) else mongoManager s)"
  by (auto simp: dropSubscriber_def without_def split: option.split)

lemma dropSubscriber_subs_ok:
  assumes ok: "subs_ok s"
  shows "subs_ok (dropSubscriber e c u s)"
proof (rule subs_okI)
  show "distinct (map fst (userSubscriptions (dropSubscriber e c u s)))"
    using ok by (simp add: dropSubscriber_keys subs_ok_keys)
next
  fix u' cs
  assume a: "map_of (userSubscriptions (dropSubscriber e c u s)) u' = Some cs"
  show "cs \<noteq> [] \<and> distinct cs"
  proof (cases "u' = u")
    case True
    with a obtain cs0 where cs0: "map_of (userSubscriptions s) u = Some cs0"
      and w: "without c cs0 = Some cs"
      by (auto simp: dropSubscriber_map_of Option.bind_eq_Some_conv)
    from subs_okD [OF ok cs0] without_Some [OF w] without_distinct [OF w]
    show ?thesis by auto
  next
    case False
    with a have "map_of (userSubscriptions s) u' = Some cs"
      by (simp add: dropSubscriber_map_of)
    from subs_okD [OF ok this] show ?thesis .
  qed
qed

lemma fold_dropSubscriber_fields [simp]:
  "clients (fold (dropSubscriber e c) us s) = clients s"
  "sent (fold (dropSubscriber e c) us s) = sent s"
  "pending (fold (dropSubscriber e c) us s) = pending s"
  by (induction us arbitrary: s) simp_all

lemma fold_dropSubscriber_subs_ok:
  "subs_ok s \<Longrightarrow> subs_ok (fold (dropSubscriber e c) us s)"
  by (induction us arbitrary: s) (simp_all add: dropSubscriber_subs_ok)

lemma disconnect_atomic_subs_ok: "subs_ok s \<Longrightarrow> subs_ok (disconnect_atomic e c s)"
  by (rule subs_ok_cong [of _ "fold (dropSubscriber e c) (map fst (userSubscriptions s)) s"])
     (simp_all add: disconnect_atomic_def Let_def fold_dropSubscriber_subs_ok)

lemma unsubscription_atomic_fields [simp]:
  "clients (unsubscription_atomic e c u s) = clients s"
  "pending (unsubscription_atomic e c u s) = pending s"
  "userSubscriptions (unsubscription_atomic e c u s) = userSubscriptions (dropSubscriber e c u s)"
  "mongoManager (unsubscription_atomic e c u s) = mongoManager (dropSubscriber e c u s)"
  by (simp_all add: unsubscription_atomic_def)

lemma getUserData_atomic_fields [simp]:
  "clients (getUserData_atomic e c u s) = clients s"
  "pending (getUserData_atomic e c u s) = pending s"
  "userSubscriptions (getUserData_atomic e c u s) = userSubscriptions s"
  "mongoManager (getUserData_atomic e c u s) = mongoManager s"
  by (simp_all add: getUserData_atomic_def)

lemma message_atomic_pending [simp]: "pending (message_atomic e c msg s) = pending s"
  by (cases msg) (simp_all add: message_atomic_def)

lemma message_atomic_subs_ok: "subs_ok s \<Longrightarrow> subs_ok (message_atomic e c msg s)"
proof (cases msg)
  case (Subscribe_user u)
  assume "subs_ok s"
  with Subscribe_user show ?thesis
    by (simp add: message_atomic_def handleUserSubscription_subs_ok)
next
  case (Unsubscribe_user u)
  assume "subs_ok s"
  then have "subs_ok (dropSubscriber e c u s)" by (rule dropSubscriber_subs_ok)
  then have "subs_ok (unsubscription_atomic e c u s)"
    by (rule subs_ok_cong [rotated]) simp
  with Unsubscribe_user show ?thesis by (simp add: message_atomic_def)
next
  case (Get_user_data u)
  assume "subs_ok s"
  with Get_user_data show ?thesis
    by (simp add: message_atomic_def subs_ok_cong [of _ s])
next
  case (Other_type ty)
  assume "subs_ok s"
  with Other_type show ?thesis
    by (simp add: message_atomic_def subs_ok_cong [of _ s])
next
  case Null_message
  assume "subs_ok s"
  with Null_message show ?thesis by (simp add: message_atomic_def)
next
  case Malformed
  assume "subs_ok s"
  with Malformed show ?thesis
    by (simp add: message_atomic_def subs_ok_cong [of _ s])
qed

lemma step_atomic_pending [simp]: "pending (step_atomic s x) = pending s"
proof (cases x)
  case (Pair e ev)
  then show ?thesis
    by (cases ev) (simp_all add: disconnect_atomic_def Let_def split: option.split)
qed

lemma step_atomic_subs_ok:
  assumes ok: "subs_ok s"
  shows "subs_ok (step_atomic s x)"
proof (cases x)
  case (Pair e ev)
  show ?thesis
  proof (cases ev)
    case (Connection c)
    with Pair ok show ?thesis by (simp add: subs_ok_cong [of _ s])
  next
    case (Message c msg)
    with Pair ok show ?thesis by (simp add: message_atomic_subs_ok)
  next
    case (Socket_state c r)
    with Pair ok show ?thesis by (simp add: subs_ok_cong [of _ s])
  next
    case (Socket_closed c)
    with Pair ok show ?thesis by (simp add: disconnect_atomic_subs_ok)
  next
    case (Change h d)
    with Pair ok show ?thesis by (simp add: subs_ok_cong [of _ s] split: option.split)
  next
    case (Stream_error h)
    with Pair ok show ?thesis by (simp add: subs_ok_cong [of _ s] split: option.split)
  next
    case (Settled n)
    with Pair ok show ?thesis by simp
  qed
qed

subsection \<open>Handlers that nothing overlaps: the change streams\<close>



lemma disconnect_atomic_mongo:
  "mongoManager (disconnect_atomic e c s) =
     mongoManager (fold (dropSubscriber e c) (map fst (userSubscriptions s)) s)"
  by (simp add: disconnect_atomic_def Let_def)



lemma message_atomic_flags:
  "collection_set (mongoManager (message_atomic e c msg s)) = collection_set (mongoManager s) \<and>
   isConnected (mongoManager (message_atomic e c msg s)) = isConnected (mongoManager s) \<and>
   enableChangeStreams (mongoManager (message_atomic e c msg s)) = enableChangeStreams (mongoManager s)"
  by (cases msg) (simp_all add: message_atomic_def handleUserSubscription_mongo dropSubscriber_mongo)

lemma fold_dropSubscriber_flags:
  "collection_set (mongoManager (fold (dropSubscriber e c) us s)) = collection_set (mongoManager s) \<and>
   isConnected (mongoManager (fold (dropSubscriber e c) us s)) = isConnected (mongoManager s) \<and>
   enableChangeStreams (mongoManager (fold (dropSubscriber e c) us s)) = enableChangeStreams (mongoManager s)"
  by (induction us arbitrary: s) (simp_all add: dropSubscriber_mongo)

lemma step_atomic_flags:
  "collection_set (mongoManager (step_atomic s x)) = collection_set (mongoManager s) \<and>
   isConnected (mongoManager (step_atomic s x)) = isConnected (mongoManager s) \<and>
   enableChangeStreams (mongoManager (step_atomic s x)) = enableChangeStreams (mongoManager s)"
proof (cases x)
  case (Pair e ev)
  then show ?thesis
    by (cases ev)
       (simp_all add: message_atomic_flags disconnect_atomic_mongo fold_dropSubscriber_flags
          split: option.split)
qed


subsection \<open>Handlers that nothing overlaps: a watch for every user with subscribers\<close>









subsection \<open>Handlers that nothing overlaps: no stream is lost\<close>













subsection \<open>Counting the streams that are not closed\<close>





subsection \<open>Answering every suspended call\<close>

lemma resume_pending_update:
  "resume e t (s\<lparr>pending := p\<rparr>) = (resume e t s)\<lparr>pending := p\<rparr>"
  by (cases t)
     (simp_all add: subscription_reply_def unsubscription_reply_def getUserData_reply_def
        sendMessage_def sendError_def split: prod.split sum.split option.split)

lemma drain_done: "pending s = [] \<Longrightarrow> drain e s = s"
  by (simp add: drain_def)

lemma drain_fold: "drain e s = fold (resume e) (pending s) (s\<lparr>pending := []\<rparr>)"
proof (induction "pending s" arbitrary: s)
  case Nil
  then have "pending s = []" by simp
  then show ?case by (simp add: drain_def)
next
  case (Cons t ts)
  then have p: "pending s = t # ts" by simp
  let ?s' = "step s (e, Settled 0)"
  from p have s': "?s' = resume e t (s\<lparr>pending := ts\<rparr>)" by simp
  then have p': "pending ?s' = ts" by simp
  have "drain e s = ((\<lambda>s'. step s' (e, Settled 0)) ^^ Suc (length ts)) s"
    by (simp add: drain_def p)
  also have "\<dots> = ((\<lambda>s'. step s' (e, Settled 0)) ^^ length ts) ?s'"
    by (simp only: funpow_Suc_right o_apply)
  also have "\<dots> = drain e ?s'" by (simp only: drain_def p')
  also have "\<dots> = fold (resume e) (pending ?s') (?s'\<lparr>pending := []\<rparr>)"
    by (rule Cons.hyps(1)) (simp only: p')
  also have "\<dots> = fold (resume e) ts (resume e t (s\<lparr>pending := []\<rparr>))"
    by (simp only: p' s') (simp add: resume_pending_update)
  finally show ?case by (simp add: p)
qed

lemma drain_single: "pending s = [t] \<Longrightarrow> drain e s = resume e t (s\<lparr>pending := []\<rparr>)"
  by (simp add: drain_fold)

subsection \<open>A handler and the answers to its calls make the whole handler\<close>

lemma handleUserSubscription_reply:
  "handleUserSubscription e c u s =
     subscription_reply e c u (watchUserData e u (mongoManager s))
       (s\<lparr>userSubscriptions := userSubscriptions (handleUserSubscription e c u s)\<rparr>)"
proof (cases "watchUserData e u (mongoManager s)")
  case (Pair r m)
  then show ?thesis
    by (cases r) (simp_all add: handleUserSubscription_def subscription_reply_def Let_def
          sendMessage_def sendError_def)
qed

lemma subscription_recomposed:
  assumes p: "pending s = []"
  shows "drain e (handleUserSubscription_start e c u s) = handleUserSubscription e c u s"
proof -
  let ?s1 = "s\<lparr>userSubscriptions := userSubscriptions (handleUserSubscription e c u s)\<rparr>"
  let ?m = "mongoManager s"
  have subs: "AList.map_entry u (set_add c)
        (if map_of (userSubscriptions s) u = None
         then AList.update u [] (userSubscriptions s) else userSubscriptions s) =
      userSubscriptions (handleUserSubscription e c u s)"
    by (simp add: handleUserSubscription_unfold)
  show ?thesis
  proof (cases "stops ?m")
    case False
    then have w: "watchUserData e u ?m =
        (if \<not> collection_set ?m \<or> \<not> isConnected ?m then (Inl NotConnected, ?m) else (Inr (), ?m))"
      by (auto simp: watchUserData_def stops_def)
    from False have st: "handleUserSubscription_start e c u s =
        subscription_reply e c u (watchUserData e u ?m) ?s1"
      unfolding w by (auto simp: handleUserSubscription_start_def Let_def stops_def subs)
    have "pending (handleUserSubscription_start e c u s) = []"
      using p False by (simp add: handleUserSubscription_start_pending)
    then have "drain e (handleUserSubscription_start e c u s) = handleUserSubscription_start e c u s"
      by (rule drain_done)
    also have "\<dots> = handleUserSubscription e c u s"
      unfolding st by (rule handleUserSubscription_reply [symmetric])
    finally show ?thesis .
  next
    case True
    show ?thesis
    proof (cases "map_of (changeStreams ?m) u")
      case None
      with True have w: "watchUserData e u ?m = watchUserData_open e u ?m"
        by (simp add: watchUserData_split stopWatching_none)
      from True None have st: "handleUserSubscription_start e c u s =
          subscription_reply e c u (watchUserData e u ?m) ?s1"
        unfolding w by (simp add: handleUserSubscription_start_def Let_def stops_def subs)
      have "pending (handleUserSubscription_start e c u s) = []"
        using p True None by (simp add: handleUserSubscription_start_pending)
      then have "drain e (handleUserSubscription_start e c u s) = handleUserSubscription_start e c u s"
        by (rule drain_done)
      also have "\<dots> = handleUserSubscription e c u s"
        unfolding st by (rule handleUserSubscription_reply [symmetric])
      finally show ?thesis .
    next
      case (Some h)
      with True have w: "watchUserData e u ?m =
          watchUserData_open e u (stopWatching_settled e u h ?m)"
        by (simp add: watchUserData_split stopWatching_split)
      from True Some p have st: "handleUserSubscription_start e c u s =
          ?s1\<lparr>pending := [Subscription_closing c u h]\<rparr>"
        by (simp add: handleUserSubscription_start_def Let_def stops_def subs)
      have "drain e (handleUserSubscription_start e c u s) =
          resume e (Subscription_closing c u h) (?s1\<lparr>pending := []\<rparr>)"
        unfolding st by (simp add: drain_single)
      also have "?s1\<lparr>pending := []\<rparr> = ?s1" using p by simp
      also have "resume e (Subscription_closing c u h) ?s1 =
          subscription_reply e c u (watchUserData e u ?m) ?s1"
        unfolding w by simp
      also have "\<dots> = handleUserSubscription e c u s"
        by (rule handleUserSubscription_reply [symmetric])
      finally show ?thesis .
    qed
  qed
qed

lemma unsubscription_recomposed:
  assumes p: "pending s = []"
  shows "drain e (handleUserUnsubscription_start e c u s) = unsubscription_atomic e c u s"
proof (cases "map_of (userSubscriptions s) u")
  case None
  then have st: "handleUserUnsubscription_start e c u s = unsubscription_atomic e c u s"
    by (simp add: handleUserUnsubscription_start_def unsubscription_atomic_def
          unsubscription_reply_def dropSubscriber_def)
  have "pending (handleUserUnsubscription_start e c u s) = []"
    using p None by (simp add: handleUserUnsubscription_start_pending)
  then show ?thesis unfolding st [symmetric] by (rule drain_done)
next
  case (Some cs)
  show ?thesis
  proof (cases "set_delete c cs = []")
    case False
    with Some have st: "handleUserUnsubscription_start e c u s = unsubscription_atomic e c u s"
      by (simp add: handleUserUnsubscription_start_def unsubscription_atomic_def
            unsubscription_reply_def dropSubscriber_def Let_def)
    have "pending (handleUserUnsubscription_start e c u s) = []"
      using p Some False by (simp add: handleUserUnsubscription_start_pending)
    then show ?thesis unfolding st [symmetric] by (rule drain_done)
  next
    case True
    show ?thesis
    proof (cases "map_of (changeStreams (mongoManager s)) u")
      case None
      with Some True have st: "handleUserUnsubscription_start e c u s = unsubscription_atomic e c u s"
        by (simp add: handleUserUnsubscription_start_def unsubscription_atomic_def
              unsubscription_reply_def dropSubscriber_def Let_def stopWatching_none
              delete_map_entry)
      have "pending (handleUserUnsubscription_start e c u s) = []"
        using p Some True None by (simp add: handleUserUnsubscription_start_pending)
      then show ?thesis unfolding st [symmetric] by (rule drain_done)
    next
      case (Some h)
      with True \<open>map_of (userSubscriptions s) u = Some cs\<close> p
      have st: "handleUserUnsubscription_start e c u s =
          s\<lparr>userSubscriptions := AList.map_entry u (\<lambda>_. []) (userSubscriptions s),
            pending := [Unsubscription_closing c u h]\<rparr>"
        by (simp add: handleUserUnsubscription_start_def Let_def)
      have "drain e (handleUserUnsubscription_start e c u s) =
          resume e (Unsubscription_closing c u h)
            (s\<lparr>userSubscriptions := AList.map_entry u (\<lambda>_. []) (userSubscriptions s),
               pending := []\<rparr>)"
        unfolding st by (simp add: drain_single)
      also have "\<dots> = unsubscription_atomic e c u s"
        using Some True \<open>map_of (userSubscriptions s) u = Some cs\<close> p
        by (simp add: unsubscription_atomic_def unsubscription_reply_def dropSubscriber_def
              stopWatching_split delete_map_entry sendMessage_def)
      finally show ?thesis .
    qed
  qed
qed

lemma getUserData_recomposed:
  assumes p: "pending s = []"
  shows "drain e (handleGetUserData_start e c u s) = getUserData_atomic e c u s"
proof (cases "collection_set (mongoManager s) \<and> isConnected (mongoManager s)")
  case False
  then have st: "handleGetUserData_start e c u s = getUserData_atomic e c u s"
    by (auto simp: handleGetUserData_start_def getUserData_atomic_def loadUserData_def)
  have "pending (handleGetUserData_start e c u s) = []"
    using p False by (simp add: handleGetUserData_start_pending)
  then show ?thesis unfolding st [symmetric] by (rule drain_done)
next
  case True
  with p have st: "handleGetUserData_start e c u s = s\<lparr>pending := [Get_finding c u]\<rparr>"
    by (simp add: handleGetUserData_start_def)
  have "drain e (handleGetUserData_start e c u s) = resume e (Get_finding c u) (s\<lparr>pending := []\<rparr>)"
    unfolding st by (simp add: drain_single)
  also have "s\<lparr>pending := []\<rparr> = s" using p by simp
  also have "resume e (Get_finding c u) s = getUserData_atomic e c u s"
    using True by (simp add: getUserData_atomic_def loadUserData_def)
  finally show ?thesis .
qed

lemma message_recomposed:
  assumes p: "pending s = []"
  shows "drain e (handleMessage e c msg s) = message_atomic e c msg s"
proof (cases msg)
  case (Subscribe_user u)
  with subscription_recomposed [OF p] show ?thesis
    by (simp add: handleMessage_def message_atomic_def)
next
  case (Unsubscribe_user u)
  with unsubscription_recomposed [OF p] show ?thesis
    by (simp add: handleMessage_def message_atomic_def)
next
  case (Get_user_data u)
  with getUserData_recomposed [OF p] show ?thesis
    by (simp add: handleMessage_def message_atomic_def)
next
  case (Other_type ty)
  with p show ?thesis by (simp add: handleMessage_def message_atomic_def drain_done)
next
  case Null_message
  with p show ?thesis by (simp add: handleMessage_def message_atomic_def drain_done)
next
  case Malformed
  with p show ?thesis by (simp add: handleMessage_def message_atomic_def drain_done)
qed

subsection \<open>Disconnecting, and the answers to the calls it leaves suspended\<close>

lemma settle_stop_other:
  "(\<And>t. t \<in> set ts \<Longrightarrow> \<exists>u' h. t = Stop_closing u' h \<and> u' \<noteq> u) \<Longrightarrow>
   map_of (changeStreams (fold (settle_stop e) ts m)) u = map_of (changeStreams m) u"
proof (induction ts arbitrary: m)
  case Nil
  then show ?case by simp
next
  case (Cons t ts)
  from Cons.prems [of t] obtain u' h where t: "t = Stop_closing u' h" and ne: "u' \<noteq> u" by auto
  have "map_of (changeStreams (fold (settle_stop e) ts (settle_stop e t m))) u =
        map_of (changeStreams (settle_stop e t m)) u"
    by (rule Cons.IH) (rule Cons.prems, simp)
  also have "\<dots> = map_of (changeStreams m) u"
    using ne by (simp add: t stopWatching_settled_map_of)
  finally show ?case by simp
qed

lemma fold_resume_stops:
  "(\<And>t. t \<in> set ts \<Longrightarrow> \<exists>u h. t = Stop_closing u h) \<Longrightarrow>
   fold (resume e) ts s = s\<lparr>mongoManager := fold (settle_stop e) ts (mongoManager s)\<rparr>"
proof (induction ts arbitrary: s)
  case Nil
  then show ?case by simp
next
  case (Cons t ts)
  from Cons.prems [of t] obtain u h where t: "t = Stop_closing u h" by auto
  have "fold (resume e) ts (resume e t s) =
        (resume e t s)\<lparr>mongoManager := fold (settle_stop e) ts (mongoManager (resume e t s))\<rparr>"
    by (rule Cons.IH) (rule Cons.prems, simp)
  then show ?case by (simp add: t)
qed

lemma disconnect_entry_subs_cong:
  "userSubscriptions a = userSubscriptions d \<Longrightarrow>
   userSubscriptions (disconnect_entry c u a) = userSubscriptions (disconnect_entry c u d)"
  by (simp add: disconnect_entry_def split: option.split)

lemma stop_task_cases:
  "stop_task c s u = [] \<or>
   (\<exists>h. stop_task c s u = [Stop_closing u h] \<and> map_of (changeStreams (mongoManager s)) u = Some h)"
  by (simp add: stop_task_def split: option.split)

lemma stop_task_stops: "t \<in> set (stop_task c s u) \<Longrightarrow> \<exists>h. t = Stop_closing u h"
  using stop_task_cases [of c s u] by auto

lemma disconnect_sim:
  assumes "distinct us"
    and "userSubscriptions a = userSubscriptions d"
    and "mongoManager a = fold (settle_stop e) (pending d) (mongoManager d)"
    and "\<And>t. t \<in> set (pending d) \<Longrightarrow> \<exists>u h. t = Stop_closing u h \<and> u \<notin> set us"
  shows "userSubscriptions (fold (dropSubscriber e c) us a) =
           userSubscriptions (fold (disconnect_entry c) us d) \<and>
         mongoManager (fold (dropSubscriber e c) us a) =
           fold (settle_stop e) (pending (fold (disconnect_entry c) us d)) (mongoManager d) \<and>
         (\<forall>t \<in> set (pending (fold (disconnect_entry c) us d)). \<exists>u h. t = Stop_closing u h)"
  using assms
proof (induction us arbitrary: a d)
  case Nil
  then show ?case by auto
next
  case (Cons u us)
  let ?a = "dropSubscriber e c u a"
  let ?d = "disconnect_entry c u d"
  from Cons.prems(1) have dist: "distinct us" and nu: "u \<notin> set us" by simp_all
  have subs: "userSubscriptions ?a = userSubscriptions ?d"
    by (simp add: dropSubscriber_subs disconnect_entry_subs_cong [OF Cons.prems(2)])
  have other: "\<And>t. t \<in> set (pending d) \<Longrightarrow> \<exists>u' h. t = Stop_closing u' h \<and> u' \<noteq> u"
  proof -
    fix t
    assume "t \<in> set (pending d)"
    from Cons.prems(4) [OF this] show "\<exists>u' h. t = Stop_closing u' h \<and> u' \<noteq> u" by auto
  qed
  have same: "map_of (changeStreams (mongoManager a)) u = map_of (changeStreams (mongoManager d)) u"
    unfolding Cons.prems(3) by (rule settle_stop_other [OF other])
  have mongo: "mongoManager ?a = fold (settle_stop e) (pending ?d) (mongoManager ?d)"
  proof (cases "map_of (userSubscriptions d) u")
    case None
    with Cons.prems(2,3) show ?thesis
      by (simp add: dropSubscriber_mongo disconnect_entry_pending stop_task_def)
  next
    case (Some cs)
    show ?thesis
    proof (cases "set_delete c cs = []")
      case False
      with Some Cons.prems(2,3) show ?thesis
        by (simp add: dropSubscriber_mongo disconnect_entry_pending stop_task_def without_def)
    next
      case True
      with Some Cons.prems(2) have "mongoManager ?a = stopWatching e u (mongoManager a)"
        by (simp add: dropSubscriber_mongo without_def)
      also have "\<dots> = fold (settle_stop e) (stop_task c d u) (mongoManager a)"
        using Some True same
        by (simp add: stopWatching_split stop_task_def split: option.split)
      also have "\<dots> = fold (settle_stop e) (pending ?d) (mongoManager ?d)"
        by (simp add: disconnect_entry_pending Cons.prems(3))
      finally show ?thesis .
    qed
  qed
  have tasks: "\<And>t. t \<in> set (pending ?d) \<Longrightarrow> \<exists>u' h. t = Stop_closing u' h \<and> u' \<notin> set us"
  proof -
    fix t
    assume "t \<in> set (pending ?d)"
    then have "t \<in> set (pending d) \<or> t \<in> set (stop_task c d u)"
      by (simp add: disconnect_entry_pending)
    then show "\<exists>u' h. t = Stop_closing u' h \<and> u' \<notin> set us"
    proof
      assume "t \<in> set (pending d)"
      from Cons.prems(4) [OF this] show ?thesis by auto
    next
      assume "t \<in> set (stop_task c d u)"
      from stop_task_stops [OF this] nu show ?thesis by auto
    qed
  qed
  from Cons.IH [OF dist subs mongo tasks] show ?case by simp
qed

lemma disconnect_recomposed:
  assumes p: "pending s = []" and keys: "distinct (map fst (userSubscriptions s))"
  shows "drain e (handleClientDisconnect c s) = disconnect_atomic e c s"
proof -
  let ?us = "map fst (userSubscriptions s)"
  let ?d = "fold (disconnect_entry c) ?us s"
  let ?a = "fold (dropSubscriber e c) ?us s"
  have sim: "userSubscriptions ?a = userSubscriptions ?d \<and>
      mongoManager ?a = fold (settle_stop e) (pending ?d) (mongoManager s) \<and>
      (\<forall>t \<in> set (pending ?d). \<exists>u h. t = Stop_closing u h)"
    by (rule disconnect_sim [OF keys]) (simp_all add: p)
  then have stops: "\<And>t. t \<in> set (pending ?d) \<Longrightarrow> \<exists>u h. t = Stop_closing u h" by blast
  have "drain e (handleClientDisconnect c s) =
      fold (resume e) (pending ?d) (?d\<lparr>clients := AList.delete c (clients s), pending := []\<rparr>)"
    by (simp add: drain_fold handleClientDisconnect_def Let_def)
  also have "\<dots> = (?d\<lparr>clients := AList.delete c (clients s), pending := []\<rparr>)
      \<lparr>mongoManager := fold (settle_stop e) (pending ?d) (mongoManager s)\<rparr>"
    using fold_resume_stops [OF stops, of "pending ?d" e
        "?d\<lparr>clients := AList.delete c (clients s), pending := []\<rparr>"]
    by simp
  also have "\<dots> = disconnect_atomic e c s"
    by (rule ws_manager.equality) (use sim p in \<open>simp_all add: disconnect_atomic_def Let_def\<close>)
  finally show ?thesis .
qed

subsection \<open>Runs in which no two handlers overlap\<close>

lemma step_seq_atomic:
  assumes p: "pending s = []" and keys: "distinct (map fst (userSubscriptions s))"
  shows "step_seq s x = step_atomic s x"
proof (cases x)
  case (Pair e ev)
  show ?thesis
  proof (cases ev)
    case (Connection c)
    with Pair p show ?thesis by (simp add: step_seq_def drain_done)
  next
    case (Message c msg)
    with Pair message_recomposed [OF p] show ?thesis by (simp add: step_seq_def)
  next
    case (Socket_state c r)
    with Pair p show ?thesis by (simp add: step_seq_def drain_done)
  next
    case (Socket_closed c)
    with Pair disconnect_recomposed [OF p keys] show ?thesis by (simp add: step_seq_def)
  next
    case (Change h d)
    with Pair p show ?thesis by (simp add: step_seq_def drain_done split: option.split)
  next
    case (Stream_error h)
    with Pair p show ?thesis by (simp add: step_seq_def drain_done on_error_def split: option.split)
  next
    case (Settled n)
    with Pair p show ?thesis by (simp add: step_seq_def drain_done)
  qed
qed

lemma foldl_step_seq_atomic:
  "pending s = [] \<Longrightarrow> subs_ok s \<Longrightarrow> foldl step_seq s evs = foldl step_atomic s evs"
proof (induction evs arbitrary: s)
  case Nil
  then show ?case by simp
next
  case (Cons x evs)
  have eq: "step_seq s x = step_atomic s x"
    by (rule step_seq_atomic [OF Cons.prems(1) subs_ok_keys [OF Cons.prems(2)]])
  have "foldl step_seq (step_atomic s x) evs = foldl step_atomic (step_atomic s x) evs"
    by (rule Cons.IH) (simp_all add: Cons.prems step_atomic_subs_ok)
  with eq show ?case by simp
qed

lemma initial_subs_ok: "subs_ok (initial en co)"
  by (simp add: initial_def subs_ok_def)

lemma run_seq_atomic: "run_seq en co evs = foldl step_atomic (initial en co) evs"
  unfolding run_seq_def
  by (rule foldl_step_seq_atomic [OF _ initial_subs_ok]) (simp add: initial_def)

lemma foldl_step_atomic_pending: "pending (foldl step_atomic s evs) = pending s"
  by (induction evs arbitrary: s) simp_all



lemma foldl_step_atomic_flags:
  "collection_set (mongoManager (foldl step_atomic s evs)) = collection_set (mongoManager s) \<and>
   isConnected (mongoManager (foldl step_atomic s evs)) = isConnected (mongoManager s) \<and>
   enableChangeStreams (mongoManager (foldl step_atomic s evs)) = enableChangeStreams (mongoManager s)"
  by (induction evs arbitrary: s) (simp_all add: step_atomic_flags)



lemma run_seq_pending: "pending (run_seq en co evs) = []"
  by (simp add: run_seq_atomic foldl_step_atomic_pending initial_def)



lemma run_seq_flags:
  "collection_set (mongoManager (run_seq en co evs)) = co"
  "isConnected (mongoManager (run_seq en co evs)) = co"
  "enableChangeStreams (mongoManager (run_seq en co evs)) = en"
  by (simp_all add: run_seq_atomic foldl_step_atomic_flags) (simp_all add: initial_def)




lemma funpow_foldl: "((\<lambda>s'. f s' y) ^^ n) s = foldl f s (replicate n y)"
proof (induction n arbitrary: s)
  case 0
  then show ?case by simp
next
  case (Suc n)
  have "((\<lambda>s'. f s' y) ^^ Suc n) s = ((\<lambda>s'. f s' y) ^^ n) (f s y)"
    by (simp only: funpow_Suc_right o_apply)
  with Suc show ?case by simp
qed

lemma drain_steps: "drain e s = foldl step s (replicate (length (pending s)) (e, Settled 0))"
  unfolding drain_def by (rule funpow_foldl)

lemma run_seq_reachable: "\<exists>evs'. run_seq en co evs = run en co evs'"
proof (induction evs rule: rev_induct)
  case Nil
  have "run_seq en co [] = run en co []" by (simp add: run_seq_def run_def)
  then show ?case ..
next
  case (snoc x evs)
  then obtain evs' where r: "run_seq en co evs = run en co evs'" ..
  let ?n = "length (pending (step (run en co evs') x))"
  have "run_seq en co (evs @ [x]) = drain (fst x) (step (run en co evs') x)"
    by (simp add: run_seq_def step_seq_def r [unfolded run_seq_def])
  also have "\<dots> = run en co (evs' @ [x] @ replicate ?n (fst x, Settled 0))"
    by (simp add: drain_steps run_def)
  finally show ?case ..
qed

subsection \<open>Disconnecting a client\<close>

lemma handleClientDisconnect_subscribers:
  "c \<notin> set (subscribers (handleClientDisconnect c s) u)"
proof (cases "map_of (userSubscriptions (handleClientDisconnect c s)) u")
  case None
  then show ?thesis by (simp add: subscribers_def)
next
  case (Some cs)
  then obtain cs0 where "without c cs0 = Some cs"
    by (auto simp: handleClientDisconnect_map_of Option.bind_eq_Some_conv)
  then have "c \<notin> set cs" by (simp add: without_Some)
  with Some show ?thesis by (simp add: subscribers_def)
qed

lemma handleClientDisconnect_registry:
  "map_of (clients (handleClientDisconnect c s)) c = None"
  by (simp add: handleClientDisconnect_clients AList.delete_conv')

lemma stop_task_other:
  "u' \<noteq> u \<Longrightarrow> stop_task c (disconnect_entry c u s) u' = stop_task c s u'"
  by (simp add: stop_task_def disconnect_entry_map_of split: option.split)

lemma fold_disconnect_entry_pending:
  "distinct us \<Longrightarrow>
   pending (fold (disconnect_entry c) us s) = pending s @ concat (map (stop_task c s) us)"
proof (induction us arbitrary: s)
  case Nil
  then show ?case by simp
next
  case (Cons u us)
  then have d: "distinct us" and n: "u \<notin> set us" by simp_all
  have "map (stop_task c (disconnect_entry c u s)) us = map (stop_task c s) us"
  proof (rule map_cong [OF refl])
    fix u'
    assume "u' \<in> set us"
    with n have "u' \<noteq> u" by auto
    then show "stop_task c (disconnect_entry c u s) u' = stop_task c s u'"
      by (rule stop_task_other)
  qed
  with Cons.IH [OF d, of "disconnect_entry c u s"] show ?case
    by (simp add: disconnect_entry_pending)
qed

lemma handleClientDisconnect_pending:
  "distinct (map fst (userSubscriptions s)) \<Longrightarrow>
   pending (handleClientDisconnect c s) =
     pending s @ concat (map (stop_task c s) (map fst (userSubscriptions s)))"
  by (simp add: handleClientDisconnect_def Let_def fold_disconnect_entry_pending)

lemma count_concat_single:
  "distinct us \<Longrightarrow> u0 \<in> set us \<Longrightarrow>
   (\<And>u'. u' \<in> set us \<Longrightarrow> u' \<noteq> u0 \<Longrightarrow> h \<notin> set (G u')) \<Longrightarrow>
   count_list (concat (map G us)) h = count_list (G u0) h"
proof (induction us)
  case Nil
  then show ?case by simp
next
  case (Cons u us)
  show ?case
  proof (cases "u = u0")
    case True
    with Cons.prems have "\<And>u'. u' \<in> set us \<Longrightarrow> h \<notin> set (G u')" by auto
    then have "h \<notin> set (concat (map G us))" by auto
    then have "count_list (concat (map G us)) h = 0" by (rule count_notin)
    with True show ?thesis by simp
  next
    case False
    with Cons.prems have "h \<notin> set (G u)" and "u0 \<in> set us" by auto
    then have z: "count_list (G u) h = 0" by (simp add: count_notin)
    from Cons.IH [OF _ \<open>u0 \<in> set us\<close>] Cons.prems
    have "count_list (concat (map G us)) h = count_list (G u0) h" by auto
    with z show ?thesis by simp
  qed
qed

lemma concat_map_concat:
  "concat (map f (concat (map g xs))) = concat (map (\<lambda>x. concat (map f (g x))) xs)"
  by (induction xs) simp_all

lemma closing_stop_task:
  "h \<in> set (concat (map closing (stop_task c s u))) \<Longrightarrow>
   map_of (changeStreams (mongoManager s)) u = Some h"
  using stop_task_cases [of c s u] by auto

lemma stop_task_sole:
  "set (subscribers s u) = {c} \<Longrightarrow> watch s u = Some h \<Longrightarrow> stop_task c s u = [Stop_closing u h]"
proof -
  assume sole: "set (subscribers s u) = {c}" and w: "watch s u = Some h"
  from sole obtain cs where cs: "map_of (userSubscriptions s) u = Some cs" and "set cs = {c}"
    by (cases "map_of (userSubscriptions s) u") (auto simp: subscribers_def)
  then have "set_delete c cs = []" by (simp add: set_delete_Nil_iff)
  with cs w show ?thesis by (simp add: stop_task_def watch_def)
qed

lemma handleClientDisconnect_closes_once:
  assumes keys: "distinct (map fst (userSubscriptions s))" and ok: "mongo_ok (mongoManager s)"
    and sole: "set (subscribers s u) = {c}" and w: "watch s u = Some h"
  shows "Stop_closing u h \<in> set (pending (handleClientDisconnect c s)) \<and>
         count_list (concat (map closing (pending (handleClientDisconnect c s)))) h =
           count_list (concat (map closing (pending s))) h + 1"
proof -
  let ?us = "map fst (userSubscriptions s)"
  let ?G = "\<lambda>u. concat (map closing (stop_task c s u))"
  from sole have "map_of (userSubscriptions s) u \<noteq> None"
    by (cases "map_of (userSubscriptions s) u") (auto simp: subscribers_def)
  then have mem: "u \<in> set ?us" by (simp add: map_of_eq_None_iff)
  have st: "stop_task c s u = [Stop_closing u h]" using sole w by (rule stop_task_sole)
  have p: "pending (handleClientDisconnect c s) = pending s @ concat (map (stop_task c s) ?us)"
    using keys by (rule handleClientDisconnect_pending)
  have other: "\<And>u'. u' \<in> set ?us \<Longrightarrow> u' \<noteq> u \<Longrightarrow> h \<notin> set (?G u')"
  proof
    fix u'
    assume ne: "u' \<noteq> u" and hin: "h \<in> set (?G u')"
    from hin have "map_of (changeStreams (mongoManager s)) u' = Some h" by (rule closing_stop_task)
    from mongo_ok_owner [OF ok this] have "map_of (opened (mongoManager s)) h = Some u'" .
    moreover from w have "map_of (changeStreams (mongoManager s)) u = Some h" by (simp add: watch_def)
    from mongo_ok_owner [OF ok this] have "map_of (opened (mongoManager s)) h = Some u" .
    ultimately show False using ne by simp
  qed
  have "count_list (concat (map ?G ?us)) h = count_list (?G u) h"
    by (rule count_concat_single [OF keys mem other])
  then have c: "count_list (concat (map closing (concat (map (stop_task c s) ?us)))) h = 1"
    by (simp only: concat_map_concat) (simp add: st)
  from mem st have "Stop_closing u h \<in> set (concat (map (stop_task c s) ?us))" by force
  then have "Stop_closing u h \<in> set (pending (handleClientDisconnect c s))"
    unfolding p by simp
  moreover have "count_list (concat (map closing (pending (handleClientDisconnect c s)))) h =
      count_list (concat (map closing (pending s))) h + 1"
    unfolding p using c by simp
  ultimately show ?thesis ..
qed

lemma resume_Stop_closing_watch:
  "watch (resume e (Stop_closing u h) s) u' =
     (if u' = u \<and> \<not> closeThrows e h then None else watch s u')"
  by (simp add: watch_def stopWatching_settled_map_of)

lemma resume_Stop_closing_closeLog:
  "closeLog (mongoManager (resume e (Stop_closing u h) s)) =
     closeLog (mongoManager s) @ [(h, closeThrows e h)]"
  by (simp add: stopWatching_settled_closeLog)


subsection \<open>Evaluating a run\<close>

lemmas run_simps = run_def initial_def env_ok_def env_watch_fails_def env_close_fails_def
  handleMessage_def handleUserSubscription_start_def handleUserSubscription_def
  handleUserUnsubscription_start_def handleGetUserData_start_def handleClientDisconnect_def
  disconnect_entry_def subscription_reply_def unsubscription_reply_def getUserData_reply_def
  watchUserData_def watchUserData_open_def stopWatching_def stopWatching_settled_def
  loadUserData_def loadUserData_settled_def sendMessage_def sendError_def broadcastToUser_def
  broadcast_one_def on_change_def on_error_def set_add_def set_delete_def Let_def
  connection_msg_def user_msg_def error_msg_def subscribers_def watch_def
  two_subscribers_def one_dead_def one_subscriber_def two_users_def resubscribe_disconnect_def
  overlapping_subscribes_def unsubscribe_waiting_def lost_subscribe_def
  active_watches_def unclosed_watches_def run_seq_def step_seq_def drain_def

lemma env_ok_simps:
  "now (env_ok t) = t" "watchThrows (env_ok t) = False" "closeThrows (env_ok t) h = False"
  by (simp_all add: env_ok_def)


section \<open>The claims\<close>

subsection \<open>Claim C1\<close>




subsection \<open>Claim C2\<close>




subsection \<open>Claim C3\<close>

text \<open>
  C3, as the code has it. A subscribe of a connection that is already in the subscriber
  set of the owner, in any state the broker reaches, leaves the subscription index as
  it is: nothing is inserted twice. The watch is left alone only when the store is not
  connected or change streams are not enabled. Otherwise \<^verbatim>\<open>watchUserData\<close> calls
  \<^verbatim>\<open>close()\<close> on the stream stored for the owner and, unless \<^verbatim>\<open>collection.watch\<close>
  throws, stores a newly opened stream in its place, which differs from the old one.
\<close>

theorem C3_resubscribe_replaces_watch:
  assumes "c \<in> set (subscribers (run en co evs) u)"
  shows "userSubscriptions (handleUserSubscription e c u (run en co evs)) =
           userSubscriptions (run en co evs) \<and>
         (\<not> (collection_set (mongoManager (run en co evs)) \<and> isConnected (mongoManager (run en co evs))
              \<and> enableChangeStreams (mongoManager (run en co evs))) \<longrightarrow>
            mongoManager (handleUserSubscription e c u (run en co evs)) = mongoManager (run en co evs)) \<and>
         (collection_set (mongoManager (run en co evs)) \<and> isConnected (mongoManager (run en co evs))
              \<and> enableChangeStreams (mongoManager (run en co evs)) \<longrightarrow>
            closeLog (mongoManager (handleUserSubscription e c u (run en co evs))) =
              closeLog (mongoManager (run en co evs)) @
              (case watch (run en co evs) u of None \<Rightarrow> [] | Some h \<Rightarrow> [(h, closeThrows e h)]) \<and>
            (\<not> watchThrows e \<longrightarrow>
               watch (handleUserSubscription e c u (run en co evs)) u =
                 Some (length (opened (mongoManager (run en co evs)))) \<and>
               watch (handleUserSubscription e c u (run en co evs)) u \<noteq> watch (run en co evs) u))"
proof (intro conjI impI)
  let ?s = "run en co evs"
  show "userSubscriptions (handleUserSubscription e c u ?s) = userSubscriptions ?s"
    using assms by (rule handleUserSubscription_again)
  {
    assume "\<not> (collection_set (mongoManager ?s) \<and> isConnected (mongoManager ?s)
              \<and> enableChangeStreams (mongoManager ?s))"
    then have "\<not> stops (mongoManager ?s)" by (simp add: stops_def)
    then show "mongoManager (handleUserSubscription e c u ?s) = mongoManager ?s"
      by (rule handleUserSubscription_idle)
  }
  {
    assume a: "collection_set (mongoManager ?s) \<and> isConnected (mongoManager ?s)
              \<and> enableChangeStreams (mongoManager ?s)"
    then have st: "stops (mongoManager ?s)" by (simp add: stops_def)
    then show "closeLog (mongoManager (handleUserSubscription e c u ?s)) =
              closeLog (mongoManager ?s) @
              (case watch ?s u of None \<Rightarrow> [] | Some h \<Rightarrow> [(h, closeThrows e h)])"
      by (simp add: handleUserSubscription_closeLog)
    assume "\<not> watchThrows e"
    with a have op: "opens e (mongoManager ?s)" by (simp add: opens_def)
    then show w: "watch (handleUserSubscription e c u ?s) u = Some (length (opened (mongoManager ?s)))"
      by (rule handleUserSubscription_watch_opens)
    show "watch (handleUserSubscription e c u ?s) u \<noteq> watch ?s u"
    proof (cases "watch ?s u")
      case None
      with w show ?thesis by simp
    next
      case (Some h)
      then have "map_of (changeStreams (mongoManager ?s)) u = Some h" by (simp add: watch_def)
      from watch_fresh [OF run_mongo_ok this] w Some show ?thesis by simp
    qed
  }
qed

theorem C3_resubscribe_replaces_watch_witness:
  "''c1'' \<in> set (subscribers (run True True two_subscribers) ''acct-1'') \<and>
   userSubscriptions (handleUserSubscription (env_ok 5) ''c1'' ''acct-1'' (run True True two_subscribers)) =
     [(''acct-1'', [''c1'', ''c2''])] \<and>
   closeLog (mongoManager (handleUserSubscription (env_ok 5) ''c1'' ''acct-1''
     (run True True two_subscribers))) = [(0, False), (1, False)] \<and>
   watch (handleUserSubscription (env_ok 5) ''c1'' ''acct-1'' (run True True two_subscribers)) ''acct-1''
     = Some 2"
proof -
  have s: "subscribers (run True True two_subscribers) ''acct-1'' = [''c1'', ''c2'']"
    by (simp add: run_simps)
  have m: "mongoManager (run True True two_subscribers) =
     \<lparr>collection_set = True, isConnected = True, enableChangeStreams = True,
      changeStreams = [(''acct-1'', 1)], opened = [(0, ''acct-1''), (1, ''acct-1'')],
      closeLog = [(0, False)], errored = []\<rparr>"
    by (simp add: run_simps)
  have u: "userSubscriptions (run True True two_subscribers) = [(''acct-1'', [''c1'', ''c2''])]"
    by (simp add: run_simps)
  have w: "watch (run True True two_subscribers) ''acct-1'' = Some 1"
    by (simp add: watch_def m)
  from C3_resubscribe_replaces_watch [of "''c1''" True True two_subscribers "''acct-1''" "env_ok 5"]
  show ?thesis by (simp add: s m u w env_ok_def)
qed

text \<open>
  C3 as stated fails: with two subscribers of \<open>acct-1\<close> and stream 1 stored for it, a
  second subscribe of \<open>c1\<close> calls \<^verbatim>\<open>close()\<close> on stream 1 and, when the call has been
  answered, stores the new stream 2.
\<close>

theorem C3_counterexample:
  "''c1'' \<in> set (subscribers (run True True two_subscribers) ''acct-1'') \<and>
   watch (run True True two_subscribers) ''acct-1'' = Some 1 \<and>
   watch (run True True (two_subscribers @ [(env_ok 5, Message ''c1'' (Subscribe_user ''acct-1'')),
     (env_ok 5, Settled 0)])) ''acct-1'' = Some 2 \<and>
   closeLog (mongoManager
     (run True True (two_subscribers @ [(env_ok 5, Message ''c1'' (Subscribe_user ''acct-1'')),
       (env_ok 5, Settled 0)])))
     = [(0, False), (1, False)] \<and>
   opened (mongoManager
     (run True True (two_subscribers @ [(env_ok 5, Message ''c1'' (Subscribe_user ''acct-1'')),
       (env_ok 5, Settled 0)])))
     = [(0, ''acct-1''), (1, ''acct-1''), (2, ''acct-1'')]"
  by (simp add: run_simps)

subsection \<open>Claim C4\<close>

text \<open>
  C4, as the code has it. The \<^verbatim>\<open>'error'\<close> listener of a change stream only writes to
  the console: after a mid-stream error the stream is still the one stored for its
  owner, the subscription index and the connection registry are as before, nothing is
  sent to any connection, and no stream is opened or closed (no retry). A later
  subscribe for the owner recovers all the same: with the store connected, change
  streams enabled and \<^verbatim>\<open>collection.watch\<close> not throwing, it calls \<^verbatim>\<open>close()\<close> on the
  stored stream and stores a newly opened one.
\<close>

theorem C4_stream_error_only_logged:
  "userSubscriptions (step s (e, Stream_error h)) = userSubscriptions s \<and>
   clients (step s (e, Stream_error h)) = clients s \<and>
   sent (step s (e, Stream_error h)) = sent s \<and>
   changeStreams (mongoManager (step s (e, Stream_error h))) = changeStreams (mongoManager s) \<and>
   opened (mongoManager (step s (e, Stream_error h))) = opened (mongoManager s) \<and>
   closeLog (mongoManager (step s (e, Stream_error h))) = closeLog (mongoManager s) \<and>
   (collection_set (mongoManager s) \<and> isConnected (mongoManager s) \<and>
    enableChangeStreams (mongoManager s) \<and> \<not> watchThrows e' \<longrightarrow>
      watch (handleUserSubscription e' c u (step s (e, Stream_error h))) u =
        Some (length (opened (mongoManager s))) \<and>
      closeLog (mongoManager (handleUserSubscription e' c u (step s (e, Stream_error h)))) =
        closeLog (mongoManager s) @
        (case watch s u of None \<Rightarrow> [] | Some h' \<Rightarrow> [(h', closeThrows e' h')]))"
proof (intro conjI impI)
  assume a: "collection_set (mongoManager s) \<and> isConnected (mongoManager s) \<and>
    enableChangeStreams (mongoManager s) \<and> \<not> watchThrows e'"
  then have op: "opens e' (mongoManager (step s (e, Stream_error h)))"
    and st: "stops (mongoManager (step s (e, Stream_error h)))"
    by (simp_all add: opens_def stops_def del: step.simps)
  from handleUserSubscription_watch_opens [OF op]
  show "watch (handleUserSubscription e' c u (step s (e, Stream_error h))) u =
        Some (length (opened (mongoManager s)))" by (simp del: step.simps)
  from st show "closeLog (mongoManager (handleUserSubscription e' c u (step s (e, Stream_error h)))) =
        closeLog (mongoManager s) @
        (case watch s u of None \<Rightarrow> [] | Some h' \<Rightarrow> [(h', closeThrows e' h')])"
    by (simp add: handleUserSubscription_closeLog del: step.simps)
qed (simp_all del: step.simps)

theorem C4_stream_error_only_logged_witness:
  "changeStreams (mongoManager (step (run True True one_subscriber)
      (env_ok 3, Stream_error 0))) = [(''acct-1'', 0)] \<and>
   watch (handleUserSubscription (env_ok 4) ''c1'' ''acct-1'' (step (run True True one_subscriber)
      (env_ok 3, Stream_error 0))) ''acct-1'' = Some 1 \<and>
   closeLog (mongoManager (handleUserSubscription (env_ok 4) ''c1'' ''acct-1'' (step (run True True one_subscriber)
      (env_ok 3, Stream_error 0)))) = [(0, False)]"
proof -
  have m: "mongoManager (run True True one_subscriber) =
     \<lparr>collection_set = True, isConnected = True, enableChangeStreams = True,
      changeStreams = [(''acct-1'', 0)], opened = [(0, ''acct-1'')],
      closeLog = [], errored = []\<rparr>"
    by (simp add: run_simps)
  from C4_stream_error_only_logged [of "run True True one_subscriber"
      "env_ok 3" 0 "env_ok 4" "''c1''" "''acct-1''"]
  show ?thesis by (simp add: m watch_def env_ok_simps del: step.simps)
qed

text \<open>
  C4 as stated fails: after the stream 0 of \<open>acct-1\<close> has emitted an error, stream 0 is
  still stored for \<open>acct-1\<close>; the owner has not gone back to being unwatched.
\<close>

theorem C4_counterexample:
  "watch (run True True (one_subscriber @ [(env_ok 3, Stream_error 0)])) ''acct-1'' = Some 0 \<and>
   changeStreams (mongoManager (run True True (one_subscriber @ [(env_ok 3, Stream_error 0)]))) = [(''acct-1'', 0)] \<and>
   errored (mongoManager (run True True (one_subscriber @ [(env_ok 3, Stream_error 0)]))) = [0]"
  by (simp add: run_simps)


subsection \<open>Claim C5\<close>

text \<open>
  C5 does not hold of the code. \<^verbatim>\<open>handleUserUnsubscription\<close> deletes the last
  subscriber from the set of the owner and then awaits \<^verbatim>\<open>stopWatching\<close> before it
  deletes the entry of the owner, so while \<^verbatim>\<open>close()\<close> of stream 0 is not answered
  the map holds the entry of \<open>acct-1\<close> with an empty set. A subscribe of \<open>c2\<close> for
  \<open>acct-1\<close> that arrives then is added to that set and is lost: when \<^verbatim>\<open>close()\<close> is
  answered the unsubscribe deletes the entry with \<open>c2\<close> in it, and \<open>c2\<close> is sent its
  confirmation all the same. \<^verbatim>\<open>handleClientDisconnect\<close> deletes the entry at once.
  Between handlers that do not overlap no entry holds an empty set (lemmas
  \<open>run_seq_subs_ok\<close> and \<open>subs_ok_no_empty\<close>).
\<close>

theorem C5_empty_set_left_in_index:
  "userSubscriptions (run True True unsubscribe_waiting) = [(''acct-1'', [])] \<and>
   map_of (userSubscriptions (run True True unsubscribe_waiting)) ''acct-1'' \<noteq> None \<and>
   subscribers (run True True unsubscribe_waiting) ''acct-1'' = [] \<and>
   pending (run True True unsubscribe_waiting) = [Unsubscription_closing ''c1'' ''acct-1'' 0] \<and>
   userSubscriptions (run True True
      (unsubscribe_waiting @ [(env_ok 5, Message ''c2'' (Subscribe_user ''acct-1''))])) =
     [(''acct-1'', [''c2''])] \<and>
   userSubscriptions (run True True lost_subscribe) = [] \<and>
   pending (run True True lost_subscribe) = [] \<and>
   watch (run True True lost_subscribe) ''acct-1'' = Some 1 \<and>
   sent (run True True lost_subscribe) =
     [(''c1'', connection_msg ''c1'' 1), (''c2'', connection_msg ''c2'' 2),
      (''c1'', user_msg ''subscription_confirmed'' ''acct-1'' None 3),
      (''c1'', user_msg ''unsubscription_confirmed'' ''acct-1'' None 6),
      (''c2'', user_msg ''subscription_confirmed'' ''acct-1'' None 7)] \<and>
   userSubscriptions (handleClientDisconnect ''c1'' (run True True one_subscriber)) = []"
  by (simp add: run_simps)

subsection \<open>Claim C6\<close>

text \<open>
  C6, as the code has it. \<^verbatim>\<open>handleClientDisconnect\<close>, in any state the broker
  reaches, leaves the connection in no subscriber set and out of the connection
  registry. It does not wait for \<^verbatim>\<open>stopWatching\<close>: the handler itself leaves the
  change streams as they are. For every owner of which the connection was the only
  subscriber and for which a stream was stored, it calls \<^verbatim>\<open>close()\<close> on that stream
  exactly once and leaves the call suspended. When that call is answered, whatever has
  happened in between, it is logged, and the stream stored for the owner by then is
  removed if \<^verbatim>\<open>close()\<close> did not throw; if it threw, the stored stream stays.
\<close>

theorem C6_disconnect_cleans_up:
  "c \<notin> set (subscribers (handleClientDisconnect c (run en co evs)) u) \<and>
   map_of (clients (handleClientDisconnect c (run en co evs))) c = None \<and>
   mongoManager (handleClientDisconnect c (run en co evs)) = mongoManager (run en co evs) \<and>
   (set (subscribers (run en co evs) u') = {c} \<and> watch (run en co evs) u' = Some h \<longrightarrow>
      Stop_closing u' h \<in> set (pending (handleClientDisconnect c (run en co evs))) \<and>
      count_list (concat (map closing (pending (handleClientDisconnect c (run en co evs))))) h =
        count_list (concat (map closing (pending (run en co evs)))) h + 1) \<and>
   closeLog (mongoManager (resume e (Stop_closing u' h) s)) =
     closeLog (mongoManager s) @ [(h, closeThrows e h)] \<and>
   watch (resume e (Stop_closing u' h) s) u' = (if closeThrows e h then watch s u' else None)"
proof (intro conjI impI)
  show "c \<notin> set (subscribers (handleClientDisconnect c (run en co evs)) u)"
    by (rule handleClientDisconnect_subscribers)
  show "map_of (clients (handleClientDisconnect c (run en co evs))) c = None"
    by (rule handleClientDisconnect_registry)
  show "mongoManager (handleClientDisconnect c (run en co evs)) = mongoManager (run en co evs)"
    by simp
  show "closeLog (mongoManager (resume e (Stop_closing u' h) s)) =
     closeLog (mongoManager s) @ [(h, closeThrows e h)]"
    by (rule resume_Stop_closing_closeLog)
  show "watch (resume e (Stop_closing u' h) s) u' = (if closeThrows e h then watch s u' else None)"
    by (simp add: resume_Stop_closing_watch del: resume.simps)
next
  let ?s = "run en co evs"
  assume a: "set (subscribers ?s u') = {c} \<and> watch ?s u' = Some h"
  then have sole: "set (subscribers ?s u') = {c}" and w: "watch ?s u' = Some h" by simp_all
  note once = handleClientDisconnect_closes_once
    [OF subs_distinct_keys [OF run_subs_distinct] run_mongo_ok sole w]
  from once show "Stop_closing u' h \<in> set (pending (handleClientDisconnect c ?s))" ..
  from once show "count_list (concat (map closing (pending (handleClientDisconnect c ?s)))) h =
        count_list (concat (map closing (pending ?s))) h + 1" ..
qed

theorem C6_disconnect_cleans_up_witness:
  "userSubscriptions (run True True two_users) =
     [(''acct-1'', [''c1'', ''c2'']), (''acct-2'', [''c1''])] \<and>
   watch (run True True two_users) ''acct-2'' = Some 2 \<and>
   pending (run True True two_users) = [] \<and>
   userSubscriptions (handleClientDisconnect ''c1'' (run True True two_users)) =
     [(''acct-1'', [''c2''])] \<and>
   clients (handleClientDisconnect ''c1'' (run True True two_users)) = [(''c2'', OPEN)] \<and>
   pending (handleClientDisconnect ''c1'' (run True True two_users)) = [Stop_closing ''acct-2'' 2] \<and>
   count_list (concat (map closing (pending (handleClientDisconnect ''c1'' (run True True two_users))))) 2 = 1 \<and>
   closeLog (mongoManager (resume (env_ok 7) (Stop_closing ''acct-2'' 2)
     (handleClientDisconnect ''c1'' (run True True two_users)))) = [(0, False), (2, False)] \<and>
   watch (resume (env_ok 7) (Stop_closing ''acct-2'' 2)
     (handleClientDisconnect ''c1'' (run True True two_users))) ''acct-2'' = None \<and>
   watch (resume (env_ok 7) (Stop_closing ''acct-2'' 2)
     (handleClientDisconnect ''c1'' (run True True two_users))) ''acct-1'' = Some 1"
proof -
  have u: "userSubscriptions (run True True two_users) =
     [(''acct-1'', [''c1'', ''c2'']), (''acct-2'', [''c1''])]"
    by (simp add: run_simps)
  have m: "mongoManager (run True True two_users) =
     \<lparr>collection_set = True, isConnected = True, enableChangeStreams = True,
      changeStreams = [(''acct-1'', 1), (''acct-2'', 2)],
      opened = [(0, ''acct-1''), (1, ''acct-1''), (2, ''acct-2'')],
      closeLog = [(0, False)], errored = []\<rparr>"
    by (simp add: run_simps)
  have c: "clients (run True True two_users) = [(''c1'', OPEN), (''c2'', OPEN)]"
    by (simp add: run_simps)
  have p: "pending (run True True two_users) = []"
    by (simp add: run_simps)
  have d: "handleClientDisconnect ''c1'' (run True True two_users) =
     (run True True two_users)\<lparr>clients := [(''c2'', OPEN)],
        userSubscriptions := [(''acct-1'', [''c2''])],
        pending := [Stop_closing ''acct-2'' 2]\<rparr>"
    by (simp add: handleClientDisconnect_def disconnect_entry_def set_delete_def Let_def u m c p)
  from C6_disconnect_cleans_up [of "''c1''" True True two_users "''acct-2''" "''acct-2''" 2
      "env_ok 7" "handleClientDisconnect ''c1'' (run True True two_users)"]
  show ?thesis
    by (simp add: d u m p subscribers_def watch_def env_ok_simps stopWatching_settled_def)
qed

text \<open>
  C6 as stated fails in its middle part. When the \<^verbatim>\<open>close()\<close> that the disconnect of
  the only subscriber \<open>c1\<close> has called throws, stream 0 stays stored for \<open>acct-1\<close>,
  which has no subscriber. And when the disconnect overlaps a second subscribe of
  \<open>c1\<close>, \<^verbatim>\<open>close()\<close> is called on stream 0 twice, once by the subscribe and once by
  the disconnect, and never on stream 1, which the subscribe opens after the disconnect:
  in the end no stream is stored for \<open>acct-1\<close> and stream 1 is still open.
\<close>

theorem C6_counterexample:
  "subscribers (run True True one_subscriber) ''acct-1'' = [''c1''] \<and>
   watch (run True True one_subscriber) ''acct-1'' = Some 0 \<and>
   pending (run True True (one_subscriber @ [(env_ok 3, Socket_closed ''c1'')])) =
     [Stop_closing ''acct-1'' 0] \<and>
   pending (run True True (one_subscriber @ [(env_ok 3, Socket_closed ''c1''),
     (env_close_fails 4, Settled 0)])) = [] \<and>
   closeLog (mongoManager (run True True (one_subscriber @ [(env_ok 3, Socket_closed ''c1''),
     (env_close_fails 4, Settled 0)]))) = [(0, True)] \<and>
   watch (run True True (one_subscriber @ [(env_ok 3, Socket_closed ''c1''),
     (env_close_fails 4, Settled 0)])) ''acct-1'' = Some 0 \<and>
   userSubscriptions (run True True (one_subscriber @ [(env_ok 3, Socket_closed ''c1''),
     (env_close_fails 4, Settled 0)])) = [] \<and>
   pending (run True True resubscribe_disconnect) =
     [Subscription_closing ''c1'' ''acct-1'' 0, Stop_closing ''acct-1'' 0] \<and>
   pending (run True True (resubscribe_disconnect @ [(env_ok 5, Settled 0), (env_ok 6, Settled 0)])) = [] \<and>
   closeLog (mongoManager (run True True
     (resubscribe_disconnect @ [(env_ok 5, Settled 0), (env_ok 6, Settled 0)]))) =
     [(0, False), (0, False)] \<and>
   opened (mongoManager (run True True
     (resubscribe_disconnect @ [(env_ok 5, Settled 0), (env_ok 6, Settled 0)]))) =
     [(0, ''acct-1''), (1, ''acct-1'')] \<and>
   changeStreams (mongoManager (run True True
     (resubscribe_disconnect @ [(env_ok 5, Settled 0), (env_ok 6, Settled 0)]))) = [] \<and>
   unclosed_watches (run True True
     (resubscribe_disconnect @ [(env_ok 5, Settled 0), (env_ok 6, Settled 0)])) ''acct-1'' = [1]"
  by (simp add: run_simps)

subsection \<open>Claim C7\<close>

text \<open>
  C7. Broadcasting a payload to an owner, in any state the broker reaches, sends the
  payload once to each subscriber of the owner whose socket is open and to nobody else:
  a subscriber whose socket is not open is skipped without an error, and the
  subscription index, the connection registry and the change streams stay as they are.
\<close>

theorem C7_broadcast_open_only:
  "sent (broadcastToUser u m (run en co evs)) =
     sent (run en co evs) @
     map (\<lambda>c. (c, m))
       (filter (\<lambda>c. map_of (clients (run en co evs)) c = Some OPEN) (subscribers (run en co evs) u)) \<and>
   distinct (subscribers (run en co evs) u) \<and>
   userSubscriptions (broadcastToUser u m (run en co evs)) = userSubscriptions (run en co evs) \<and>
   clients (broadcastToUser u m (run en co evs)) = clients (run en co evs) \<and>
   mongoManager (broadcastToUser u m (run en co evs)) = mongoManager (run en co evs)"
  using subscribers_distinct [OF run_subs_distinct, of en co evs u] by (simp add: broadcastToUser_sent)

theorem C7_broadcast_open_only_witness:
  "subscribers (run True True one_dead) ''acct-1'' = [''c1'', ''c2''] \<and>
   clients (run True True one_dead) = [(''c1'', OPEN), (''c2'', CLOSED)] \<and>
   sent (broadcastToUser ''acct-1'' (user_msg ''data_update'' ''acct-1'' None 9) (run True True one_dead)) =
     sent (run True True one_dead) @ [(''c1'', user_msg ''data_update'' ''acct-1'' None 9)] \<and>
   userSubscriptions (broadcastToUser ''acct-1'' (user_msg ''data_update'' ''acct-1'' None 9)
      (run True True one_dead)) = [(''acct-1'', [''c1'', ''c2''])]"
proof -
  have s: "subscribers (run True True one_dead) ''acct-1'' = [''c1'', ''c2'']"
    by (simp add: run_simps)
  have c: "clients (run True True one_dead) = [(''c1'', OPEN), (''c2'', CLOSED)]"
    by (simp add: run_simps)
  have u: "userSubscriptions (run True True one_dead) = [(''acct-1'', [''c1'', ''c2''])]"
    by (simp add: run_simps)
  from C7_broadcast_open_only [of "''acct-1''" "user_msg ''data_update'' ''acct-1'' None 9" True True one_dead]
  show ?thesis by (simp add: s c u)
qed

subsection \<open>Claim C8\<close>




subsection \<open>Claim C9\<close>

text \<open>
  C9, as the code has it. When opening the change stream fails during a subscribe (the
  store is not connected, or \<^verbatim>\<open>collection.watch\<close> throws), the connection is in the
  subscriber set of the owner after the handler, no stream has been opened, and an
  owner that had no watch before has none after: the owner is left with a subscriber
  and no watch. The error message, with the type \<^verbatim>\<open>error\<close>, the text
  \<^verbatim>\<open>Failed to subscribe to user data\<close> and a timestamp, is sent to the requesting
  connection only when its socket is open; otherwise nothing is sent. The same holds
  when the handler had to wait for \<^verbatim>\<open>close()\<close> of the stored stream and
  \<^verbatim>\<open>collection.watch\<close> throws afterwards: the continuation leaves the subscription
  index as it is, opens no stream and sends the error to an open socket only.
\<close>

theorem C9_failed_watch_keeps_subscriber:
  assumes "isl (fst (watchUserData e u (mongoManager s)))"
  shows "c \<in> set (subscribers (handleUserSubscription e c u s) u) \<and>
         sent (handleUserSubscription e c u s) =
           sent s @ (if map_of (clients s) c = Some OPEN
                     then [(c, \<lparr>msg_type = ''error'', msg_clientId = None, msg_userId = None,
                                msg_data = None,
                                msg_message = Some ''Failed to subscribe to user data'',
                                msg_timestamp = Some (now e)\<rparr>)]
                     else []) \<and>
         opened (mongoManager (handleUserSubscription e c u s)) = opened (mongoManager s) \<and>
         (watch s u = None \<longrightarrow> watch (handleUserSubscription e c u s) u = None) \<and>
         (watchThrows e \<longrightarrow>
            userSubscriptions (resume e (Subscription_closing c u h) s) = userSubscriptions s \<and>
            opened (mongoManager (resume e (Subscription_closing c u h) s)) = opened (mongoManager s) \<and>
            sent (resume e (Subscription_closing c u h) s) =
              sent s @ (if map_of (clients s) c = Some OPEN
                        then [(c, \<lparr>msg_type = ''error'', msg_clientId = None, msg_userId = None,
                                   msg_data = None,
                                   msg_message = Some ''Failed to subscribe to user data'',
                                   msg_timestamp = Some (now e)\<rparr>)]
                        else []))"
proof (intro conjI impI)
  show "c \<in> set (subscribers (handleUserSubscription e c u s) u)"
    by (simp add: subscribers_handleUserSubscription)
  show "sent (handleUserSubscription e c u s) =
          sent s @ (if map_of (clients s) c = Some OPEN
                    then [(c, \<lparr>msg_type = ''error'', msg_clientId = None, msg_userId = None,
                               msg_data = None,
                               msg_message = Some ''Failed to subscribe to user data'',
                               msg_timestamp = Some (now e)\<rparr>)]
                    else [])"
    using assms by (simp add: handleUserSubscription_sent error_msg_def)
  from assms have "\<not> opens e (mongoManager s)"
    by (auto simp: watchUserData_fails opens_def)
  then show "opened (mongoManager (handleUserSubscription e c u s)) = opened (mongoManager s)"
    by (simp add: handleUserSubscription_opened)
next
  assume "watch s u = None"
  then have "map_of (changeStreams (mongoManager s)) u = None" by (simp add: watch_def)
  from watchUserData_fails_no_watch [OF assms this]
  show "watch (handleUserSubscription e c u s) u = None"
    by (simp add: watch_handleUserSubscription)
next
  assume t: "watchThrows e"
  show "userSubscriptions (resume e (Subscription_closing c u h) s) = userSubscriptions s"
    by simp
  from t show "opened (mongoManager (resume e (Subscription_closing c u h) s)) = opened (mongoManager s)"
    by (simp add: watchUserData_open_opened)
  from t show "sent (resume e (Subscription_closing c u h) s) =
              sent s @ (if map_of (clients s) c = Some OPEN
                        then [(c, \<lparr>msg_type = ''error'', msg_clientId = None, msg_userId = None,
                                   msg_data = None,
                                   msg_message = Some ''Failed to subscribe to user data'',
                                   msg_timestamp = Some (now e)\<rparr>)]
                        else [])"
    by (simp add: resume_sent error_msg_def del: resume.simps)
qed

theorem C9_failed_watch_keeps_subscriber_witness:
  "isl (fst (watchUserData (env_watch_fails 2) ''acct-1''
              (mongoManager (run True True [(env_ok 1, Connection ''c1'')])))) \<and>
   subscribers (handleUserSubscription (env_watch_fails 2) ''c1'' ''acct-1''
      (run True True [(env_ok 1, Connection ''c1'')])) ''acct-1'' = [''c1''] \<and>
   watch (handleUserSubscription (env_watch_fails 2) ''c1'' ''acct-1''
      (run True True [(env_ok 1, Connection ''c1'')])) ''acct-1'' = None \<and>
   sent (handleUserSubscription (env_watch_fails 2) ''c1'' ''acct-1''
      (run True True [(env_ok 1, Connection ''c1'')])) =
     [(''c1'', connection_msg ''c1'' 1),
      (''c1'', \<lparr>msg_type = ''error'', msg_clientId = None, msg_userId = None, msg_data = None,
                msg_message = Some ''Failed to subscribe to user data'',
                msg_timestamp = Some 2\<rparr>)] \<and>
   sent (run True True (one_subscriber @
      [(env_ok 3, Message ''c1'' (Subscribe_user ''acct-1'')), (env_watch_fails 4, Settled 0)])) =
     [(''c1'', connection_msg ''c1'' 1),
      (''c1'', user_msg ''subscription_confirmed'' ''acct-1'' None 2),
      (''c1'', \<lparr>msg_type = ''error'', msg_clientId = None, msg_userId = None, msg_data = None,
                msg_message = Some ''Failed to subscribe to user data'',
                msg_timestamp = Some 4\<rparr>)]"
proof -
  have r: "sent (run True True (one_subscriber @
      [(env_ok 3, Message ''c1'' (Subscribe_user ''acct-1'')), (env_watch_fails 4, Settled 0)])) =
     [(''c1'', connection_msg ''c1'' 1),
      (''c1'', user_msg ''subscription_confirmed'' ''acct-1'' None 2),
      (''c1'', \<lparr>msg_type = ''error'', msg_clientId = None, msg_userId = None, msg_data = None,
                msg_message = Some ''Failed to subscribe to user data'',
                msg_timestamp = Some 4\<rparr>)]"
    by (simp add: run_simps)
  from C9_failed_watch_keeps_subscriber [of "env_watch_fails 2" "''acct-1''"
      "run True True [(env_ok 1, Connection ''c1'')]" "''c1''" 0] r
  show ?thesis by (simp add: run_simps)
qed

text \<open>
  C9 as stated fails for a requesting connection whose socket is not open: \<open>c1\<close>
  subscribes while its socket is closing and \<^verbatim>\<open>collection.watch\<close> throws; \<open>c1\<close> is in
  the subscriber set of \<open>acct-1\<close>, no watch is stored, and no error message is sent.
\<close>

theorem C9_counterexample:
  "clients (run True True [(env_ok 1, Connection ''c1''), (env_ok 2, Socket_state ''c1'' CLOSING),
      (env_watch_fails 3, Message ''c1'' (Subscribe_user ''acct-1''))]) = [(''c1'', CLOSING)] \<and>
   subscribers (run True True [(env_ok 1, Connection ''c1''), (env_ok 2, Socket_state ''c1'' CLOSING),
      (env_watch_fails 3, Message ''c1'' (Subscribe_user ''acct-1''))]) ''acct-1'' = [''c1''] \<and>
   watch (run True True [(env_ok 1, Connection ''c1''), (env_ok 2, Socket_state ''c1'' CLOSING),
      (env_watch_fails 3, Message ''c1'' (Subscribe_user ''acct-1''))]) ''acct-1'' = None \<and>
   pending (run True True [(env_ok 1, Connection ''c1''), (env_ok 2, Socket_state ''c1'' CLOSING),
      (env_watch_fails 3, Message ''c1'' (Subscribe_user ''acct-1''))]) = [] \<and>
   sent (run True True [(env_ok 1, Connection ''c1''), (env_ok 2, Socket_state ''c1'' CLOSING),
      (env_watch_fails 3, Message ''c1'' (Subscribe_user ''acct-1''))]) =
     [(''c1'', connection_msg ''c1'' 1)]"
  by (simp add: run_simps)

subsection \<open>Claim C10\<close>

text \<open>
  C10, as the code has it. When the configuration does not enable change streams, no
  stream is ever stored or opened and no \<^verbatim>\<open>data_update\<close> is ever sent, whether the store
  is connected or not. When the store is connected as well, every subscribe completes:
  the connection is in the subscriber set of the owner afterwards, the change streams
  are untouched, and a requesting connection whose socket is open is sent the
  \<^verbatim>\<open>subscription_confirmed\<close>.
\<close>

theorem C10_change_streams_not_enabled:
  "changeStreams (mongoManager (run False co evs)) = [] \<and>
   opened (mongoManager (run False co evs)) = [] \<and>
   ''data_update'' \<notin> set (map (\<lambda>x. msg_type (snd x)) (sent (run False co evs))) \<and>
   c \<in> set (subscribers (handleUserSubscription e c u (run False True evs)) u) \<and>
   mongoManager (handleUserSubscription e c u (run False True evs)) = mongoManager (run False True evs) \<and>
   (map_of (clients (run False True evs)) c = Some OPEN \<longrightarrow>
      sent (handleUserSubscription e c u (run False True evs)) =
        sent (run False True evs) @ [(c, user_msg ''subscription_confirmed'' u None (now e))])"
proof (intro conjI impI)
  from run_idle [of co evs]
  show "changeStreams (mongoManager (run False co evs)) = []"
    and "opened (mongoManager (run False co evs)) = []"
    by (simp_all add: idle_def)
  show "''data_update'' \<notin> set (map (\<lambda>x. msg_type (snd x)) (sent (run False co evs)))"
    by (rule run_no_update)
  show "c \<in> set (subscribers (handleUserSubscription e c u (run False True evs)) u)"
    by (simp add: subscribers_handleUserSubscription)
  show "mongoManager (handleUserSubscription e c u (run False True evs)) = mongoManager (run False True evs)"
    by (rule handleUserSubscription_idle [OF idle_not_stops [OF run_idle]])
  have ok: "\<not> isl (fst (watchUserData e u (mongoManager (run False True evs))))"
    by (simp add: watchUserData_fails run_flags)
  assume "map_of (clients (run False True evs)) c = Some OPEN"
  from handleUserSubscription_confirmed [OF ok this]
  show "sent (handleUserSubscription e c u (run False True evs)) =
        sent (run False True evs) @ [(c, user_msg ''subscription_confirmed'' u None (now e))]" .
qed

theorem C10_change_streams_not_enabled_witness:
  "map_of (clients (run False True [(env_ok 1, Connection ''c1'')])) ''c1'' = Some OPEN \<and>
   subscribers (handleUserSubscription (env_ok 2) ''c1'' ''acct-1''
      (run False True [(env_ok 1, Connection ''c1'')])) ''acct-1'' = [''c1''] \<and>
   changeStreams (mongoManager (handleUserSubscription (env_ok 2) ''c1'' ''acct-1''
      (run False True [(env_ok 1, Connection ''c1'')]))) = [] \<and>
   sent (handleUserSubscription (env_ok 2) ''c1'' ''acct-1''
      (run False True [(env_ok 1, Connection ''c1'')])) =
     [(''c1'', connection_msg ''c1'' 1),
      (''c1'', user_msg ''subscription_confirmed'' ''acct-1'' None 2)]"
  using C10_change_streams_not_enabled [of True "[(env_ok 1, Connection ''c1'')]" "''c1''"
      "env_ok 2" "''acct-1''"]
  by (simp add: run_simps)

text \<open>
  C10 as stated fails when the store is not connected: \<^verbatim>\<open>watchUserData\<close> tests the
  connection before it tests \<^verbatim>\<open>enableChangeStreams\<close>, so the subscribe is answered with
  the error and not with a confirmation.
\<close>

theorem C10_counterexample:
  "enableChangeStreams (mongoManager (run False False [(env_ok 1, Connection ''c1'')])) = False \<and>
   map_of (clients (run False False [(env_ok 1, Connection ''c1'')])) ''c1'' = Some OPEN \<and>
   sent (run False False one_subscriber) =
     [(''c1'', connection_msg ''c1'' 1),
      (''c1'', error_msg 2 ''Failed to subscribe to user data'')]"
  by (simp add: run_simps)


end
